theory Spec2Isabelle
  imports Main "HOL-Library.Word" "HOL-Library.AList"
begin

unbundle bit_operations_syntax

section \<open>Go values shared by the models\<close>

text \<open>
  A Go \<^verbatim>\<open>error\<close> is modelled by its message; a call that returns \<^verbatim>\<open>(*T, error)\<close>
  is a pair of options, \<open>None\<close> standing for \<^verbatim>\<open>nil\<close> on either side.
  \<^verbatim>\<open>time.Duration\<close> counts nanoseconds.
\<close>

type_synonym go_error = string
type_synonym Duration = int

definition Second :: Duration where
  "Second = 1000000000"

section \<open>Messages of the device-plugin API\<close>

text \<open>
  The message types come from \<^verbatim>\<open>k8s.io/kubelet/pkg/apis/deviceplugin/v1beta1\<close>. Only
  the fields are modelled; a nil map or slice of the zero value is the empty list.
\<close>

definition Healthy :: string where
  "Healthy = ''Healthy''"

definition Unhealthy :: string where
  "Unhealthy = ''Unhealthy''"

record pluginapi_Device =
  ID :: string
  Health :: string

record ListAndWatchResponse =
  Devices :: "pluginapi_Device list"

record Mount =
  mnt_ContainerPath :: string
  mnt_HostPath :: string
  mnt_ReadOnly :: bool

record DeviceSpec =
  ds_ContainerPath :: string
  ds_HostPath :: string
  ds_Permissions :: string

record ContainerAllocateRequest =
  DevicesIDs :: "string list"

record AllocateRequest =
  ContainerRequests :: "ContainerAllocateRequest list"

record ContainerAllocateResponse =
  Envs :: "(string \<times> string) list"
  Mounts :: "Mount list"
  DeviceSpecs :: "DeviceSpec list"
  Annotations :: "(string \<times> string) list"

record AllocateResponse =
  ContainerResponses :: "ContainerAllocateResponse list"

record DevicePluginOptions =
  PreStartRequired :: bool
  GetPreferredAllocationAvailable :: bool

record PreStartContainerRequest =
  psc_DevicesIDs :: "string list"

record ContainerPreferredAllocationRequest =
  AvailableDeviceIDs :: "string list"
  MustIncludeDeviceIDs :: "string list"
  AllocationSize :: int

record PreferredAllocationRequest =
  pa_ContainerRequests :: "ContainerPreferredAllocationRequest list"

record ContainerPreferredAllocationResponse =
  pa_DeviceIDs :: "string list"

record PreferredAllocationResponse =
  pa_ContainerResponses :: "ContainerPreferredAllocationResponse list"

datatype PreStartContainerResponse = PreStartContainerResponse

text \<open>\<^verbatim>\<open>new(pluginapi.ContainerAllocateResponse)\<close>: the zero value.\<close>

definition new_ContainerAllocateResponse :: ContainerAllocateResponse where
  "new_ContainerAllocateResponse =
     \<lparr>Envs = [], Mounts = [], DeviceSpecs = [], Annotations = []\<rparr>"

section \<open>The bridge plugin\<close>

text \<open>
  Channels are references into a store of flags (closed or not); a nil channel is
  \<open>None\<close>. The gRPC server of a plugin is absent until \<^verbatim>\<open>Start\<close> makes one.
\<close>

type_synonym chan = nat

datatype server_state = Serving | Stopped

record BridgeDevicePlugin =
  devs :: "pluginapi_Device list"
  server :: "server_state option"
  socketPath :: string
  stop :: "chan option"
  deviceName :: string
  resourceName :: string
  done_ch :: "chan option"
  initialized :: bool
  deregistered :: "chan option"

subsection \<open>Socket path\<close>

text \<open>
  \<^verbatim>\<open>SocketPath\<close> calls \<^verbatim>\<open>filepath.Join\<close> of the Go standard library, which joins
  its elements, from the first non-empty one on, with a slash and cleans the result;
  \<^verbatim>\<open>fmt.Sprintf\<close> with \<^verbatim>\<open>%s\<close> inserts the name as it is. \<^verbatim>\<open>Clean\<close> is modelled
  as the library writes it for Unix paths: a scan of the path with a write buffer
  \<open>out\<close> and the index \<open>dotdot\<close> below which the buffer may not be cut back.
\<close>

function backtrack :: "nat \<Rightarrow> string \<Rightarrow> nat \<Rightarrow> nat" where
  "backtrack dotdot out w =
     (if w > dotdot \<and> out ! w \<noteq> CHR ''/'' then backtrack dotdot out (w - 1) else w)"
  by pat_completeness auto
termination
  by (relation "measure (\<lambda>(dotdot, out, w). w)") auto

declare backtrack.simps [simp del]

function Clean_loop :: "bool \<Rightarrow> nat \<Rightarrow> string \<Rightarrow> string \<Rightarrow> string" where
  "Clean_loop rooted dotdot out [] = out"
| "Clean_loop rooted dotdot out (c # cs) =
     (if c = CHR ''/'' then Clean_loop rooted dotdot out cs
      else if c = CHR ''.'' \<and> (case cs of [] \<Rightarrow> True | c1 # _ \<Rightarrow> c1 = CHR ''/'')
        then Clean_loop rooted dotdot out cs
      else if c = CHR ''.''
           \<and> (case cs of [] \<Rightarrow> False
                | c1 # cs1 \<Rightarrow> c1 = CHR ''.'' \<and> (case cs1 of [] \<Rightarrow> True | c2 # _ \<Rightarrow> c2 = CHR ''/''))
        then
          (if length out > dotdot
             then Clean_loop rooted dotdot
                    (take (backtrack dotdot out (length out - 1)) out) (tl cs)
           else if \<not> rooted
             then (let out' = (if length out > 0 then out @ ''/'' else out) @ ''..''
                   in Clean_loop rooted (length out') out' (tl cs))
           else Clean_loop rooted dotdot out (tl cs))
      else
        (let out' = (if rooted \<and> length out \<noteq> 1 \<or> \<not> rooted \<and> length out \<noteq> 0
                     then out @ ''/'' else out)
         in Clean_loop rooted dotdot
              (out' @ takeWhile (\<lambda>x. x \<noteq> CHR ''/'') (c # cs))
              (dropWhile (\<lambda>x. x \<noteq> CHR ''/'') (c # cs))))"
  by pat_completeness auto
termination
  by (relation "measure (\<lambda>(rooted, dotdot, out, path). length path)")
     (auto split: list.splits simp: le_imp_less_Suc length_dropWhile_le)

definition Clean :: "string \<Rightarrow> string" where
  "Clean path =
     (if path = [] then ''.''
      else (let rooted = (hd path = CHR ''/'');
                out = Clean_loop rooted (if rooted then 1 else 0)
                        (if rooted then ''/'' else []) (if rooted then tl path else path)
            in if out = [] then ''.'' else out))"

fun strings_Join :: "string list \<Rightarrow> string \<Rightarrow> string" where
  "strings_Join [] sep = []"
| "strings_Join [e] sep = e"
| "strings_Join (e # es) sep = e @ sep @ strings_Join es sep"

fun filepath_Join :: "string list \<Rightarrow> string" where
  "filepath_Join [] = []"
| "filepath_Join (e # es) =
     (if e \<noteq> [] then Clean (strings_Join (e # es) ''/'') else filepath_Join es)"

text \<open>
  \<^verbatim>\<open>pluginapi.DevicePluginPath\<close>, the directory of the kubelet's device-plugin
  sockets, is a constant of the kubelet API package.
\<close>

definition DevicePluginPath :: string where
  "DevicePluginPath = ''/var/lib/kubelet/device-plugins/''"

definition SocketPath :: "string \<Rightarrow> string" where
  "SocketPath name =
     filepath_Join [DevicePluginPath, ''kubevirt-'' @ name @ ''.sock'']"

subsection \<open>Construction\<close>

text \<open>
  \<^verbatim>\<open>strconv.Itoa\<close>: the decimal digits of the value, most significant first, after a
  minus sign when it is negative.
\<close>

definition digit_char :: "nat \<Rightarrow> char" where
  "digit_char n = ''0123456789'' ! n"

function digits10 :: "nat \<Rightarrow> string" where
  "digits10 n = (if n < 10 then [digit_char n] else digits10 (n div 10) @ [digit_char (n mod 10)])"
  by pat_completeness auto
termination
  by (relation "measure id") auto

declare digits10.simps [simp del]

definition Itoa :: "int \<Rightarrow> string" where
  "Itoa i = (if i < 0 then CHR ''-'' # digits10 (nat (- i)) else digits10 (nat i))"

text \<open>
  The number a string of decimal digits stands for, to read a rendering back.
\<close>

definition decimal_value :: "string \<Rightarrow> nat" where
  "decimal_value s = foldl (\<lambda>a c. 10 * a + (of_char c - 48)) 0 s"

definition DeviceNamespace :: string where
  "DeviceNamespace = ''bridge.network.kubevirt.io''"

text \<open>
  The loop of \<^verbatim>\<open>NewBridgeDevicePlugin\<close> appends one healthy device per index below
  \<open>maxDevices\<close>. The index is a Go \<^verbatim>\<open>int\<close>; it stays below \<open>maxDevices\<close>, so it never
  wraps. The unbuffered \<^verbatim>\<open>health\<close> channel and the mutex of the plugin carry no data
  of their own: the traffic of the channel is the event list of the two loops below.
\<close>

function NewBridgeDevicePlugin_loop ::
  "BridgeDevicePlugin \<Rightarrow> int \<Rightarrow> int \<Rightarrow> BridgeDevicePlugin" where
  "NewBridgeDevicePlugin_loop dpi maxDevices i =
     (if i < maxDevices
      then (let deviceId = deviceName dpi @ Itoa i
            in NewBridgeDevicePlugin_loop
                 (dpi\<lparr>devs := devs dpi @ [\<lparr>ID = deviceId, Health = Healthy\<rparr>]\<rparr>)
                 maxDevices (i + 1))
      else dpi)"
  by pat_completeness auto
termination
  by (relation "measure (\<lambda>(dpi, maxDevices, i). nat (maxDevices - i))") auto

declare NewBridgeDevicePlugin_loop.simps [simp del]

definition NewBridgeDevicePlugin :: "string \<Rightarrow> int \<Rightarrow> BridgeDevicePlugin" where
  "NewBridgeDevicePlugin name maxDevices =
     (let serverSock = SocketPath name;
          dpi = \<lparr>devs = [], server = None, socketPath = serverSock, stop = None,
                 deviceName = name, resourceName = DeviceNamespace @ ''/'' @ name,
                 done_ch = None, initialized = False, deregistered = None\<rparr>
      in NewBridgeDevicePlugin_loop dpi maxDevices 0)"

definition GetDeviceName :: "BridgeDevicePlugin \<Rightarrow> string" where
  "GetDeviceName dpi = deviceName dpi"

definition GetInitialized :: "BridgeDevicePlugin \<Rightarrow> bool" where
  "GetInitialized dpi = initialized dpi"

definition setInitialized :: "BridgeDevicePlugin \<Rightarrow> bool \<Rightarrow> BridgeDevicePlugin" where
  "setInitialized dpi b = dpi\<lparr>initialized := b\<rparr>"

subsection \<open>Channels and outcomes\<close>

text \<open>
  The store of channels holds one flag per channel made so far: closed or not.
  \<^verbatim>\<open>make(chan struct{})\<close> appends an open channel; \<^verbatim>\<open>close\<close> panics on a nil channel
  and on a closed one. \<^verbatim>\<open>IsChanClosed\<close> is the non-blocking receive of the source: a
  nil channel is never ready, so it reports \<open>False\<close>.
\<close>

type_synonym chans = "bool list"

datatype panic =
  CloseOfNilChannel | CloseOfClosedChannel | NilPointerDereference | IndexOutOfRange

datatype outcome = Blocked | Returned "go_error option" | Panicked panic

definition make_chan :: "chans \<Rightarrow> chan \<times> chans" where
  "make_chan cs = (length cs, cs @ [False])"

definition IsChanClosed :: "chans \<Rightarrow> chan option \<Rightarrow> bool" where
  "IsChanClosed cs ch = (case ch of None \<Rightarrow> False | Some c \<Rightarrow> c < length cs \<and> cs ! c)"

definition close_chan :: "chans \<Rightarrow> chan option \<Rightarrow> panic + chans" where
  "close_chan cs ch =
     (case ch of
        None \<Rightarrow> Inl CloseOfNilChannel
      | Some c \<Rightarrow> if c < length cs \<and> \<not> cs ! c then Inr (cs[c := True])
                  else Inl CloseOfClosedChannel)"

subsection \<open>ListAndWatch\<close>

text \<open>
  The handler sends the current device list, then serves its \<^verbatim>\<open>select\<close>. The list of
  events is the order in which the cases of the \<^verbatim>\<open>select\<close> fire: a value received
  from \<^verbatim>\<open>health\<close>, or the closing of \<^verbatim>\<open>stop\<close> or of \<^verbatim>\<open>done\<close>. With no event left the
  handler is blocked in the \<^verbatim>\<open>select\<close>. The result lists every message handed to
  \<^verbatim>\<open>Send\<close>, whose error the loop ignores.
\<close>

record deviceHealth =
  DevId :: string
  dh_Health :: string

datatype lw_event = RecvHealth deviceHealth | StopClosed | DoneClosed

fun ListAndWatch_loop ::
  "BridgeDevicePlugin \<Rightarrow> lw_event list
     \<Rightarrow> ListAndWatchResponse list \<times> BridgeDevicePlugin \<times> bool" where
  "ListAndWatch_loop dpi [] = ([], dpi, False)"
| "ListAndWatch_loop dpi (RecvHealth devHealth # evs) =
     (let dpi' = dpi\<lparr>devs := map (\<lambda>dev. dev\<lparr>Health := dh_Health devHealth\<rparr>) (devs dpi)\<rparr>;
          (sent, dpi'', done) = ListAndWatch_loop dpi' evs
      in (\<lparr>Devices = devs dpi'\<rparr> # sent, dpi'', done))"
| "ListAndWatch_loop dpi (StopClosed # evs) = ([], dpi, True)"
| "ListAndWatch_loop dpi (DoneClosed # evs) = ([], dpi, True)"

definition ListAndWatch ::
  "BridgeDevicePlugin \<Rightarrow> chans \<Rightarrow> lw_event list
     \<Rightarrow> ListAndWatchResponse list \<times> BridgeDevicePlugin \<times> chans \<times> outcome" where
  "ListAndWatch dpi cs evs =
     (let first = \<lparr>Devices = devs dpi\<rparr>;
          (sent, dpi', done) = ListAndWatch_loop dpi evs
      in if \<not> done then (first # sent, dpi', cs, Blocked)
         else (let emptyList = [];
                   msgs = first # sent @ [\<lparr>Devices = emptyList\<rparr>]
               in case close_chan cs (deregistered dpi') of
                    Inl p \<Rightarrow> (msgs, dpi', cs, Panicked p)
                  | Inr cs' \<Rightarrow> (msgs, dpi', cs', Returned None)))"

subsection \<open>The health loop\<close>

text \<open>
  What the health loop reads from the node: the results of the set-up calls, in the
  order of the source, and the events its \<^verbatim>\<open>select\<close> receives. A link carries its
  attributes and its dynamic type; a file-system event carries a path and a bit mask
  of operations, \<^verbatim>\<open>fsnotify.Remove\<close> being bit 2.
\<close>

datatype LinkOperState =
  OperUnknown | OperNotPresent | OperDown | OperLowerLayerDown | OperTesting
  | OperDormant | OperUp

record LinkAttrs =
  Name :: string
  OperState :: LinkOperState

datatype link_type = Bridge | OtherLinkType

record Link =
  LinkType :: link_type
  Attrs :: LinkAttrs

record LinkUpdate =
  Header_Type :: "16 word"
  upd_Link :: Link

definition RTM_NEWLINK :: "16 word" where
  "RTM_NEWLINK = 16"

definition RTM_DELLINK :: "16 word" where
  "RTM_DELLINK = 17"

record fsnotify_Event =
  ev_Name :: string
  Op :: "32 word"

definition fsnotify_Remove :: "32 word" where
  "fsnotify_Remove = 4"

datatype LinkByName_result = LinkNotFoundError go_error | LinkError go_error | LinkFound Link

record healthCheck_env =
  NewHandle_err :: "go_error option"
  LinkSubscribe_err :: "go_error option"
  NewWatcher_err :: "go_error option"
  watcher_Add_err :: "go_error option"
  Stat_err :: "go_error option"
  LinkByName :: LinkByName_result

datatype hc_event =
  StopSignal | Update LinkUpdate | WatcherEvent fsnotify_Event | WatcherError go_error

text \<open>
  The loop returns the values it sent on \<^verbatim>\<open>health\<close>, in order, and how it ended. Each
  send blocks until the list-and-watch handler receives the value.
\<close>

fun healthCheck_loop ::
  "BridgeDevicePlugin \<Rightarrow> hc_event list \<Rightarrow> deviceHealth list \<times> outcome" where
  "healthCheck_loop dpi [] = ([], Blocked)"
| "healthCheck_loop dpi (StopSignal # evs) = ([], Returned None)"
| "healthCheck_loop dpi (Update update # evs) =
     (if Name (Attrs (upd_Link update)) = deviceName dpi
      then (if OperState (Attrs (upd_Link update)) = OperUp
            then (let (pubs, r) = healthCheck_loop dpi evs
                  in (\<lparr>DevId = [], dh_Health = Healthy\<rparr> # pubs, r))
            else (let (pubs, r) = healthCheck_loop dpi evs
                  in (\<lparr>DevId = [], dh_Health = Unhealthy\<rparr> # pubs, r)))
      else healthCheck_loop dpi evs)"
| "healthCheck_loop dpi (WatcherEvent event # evs) =
     (if ev_Name event = socketPath dpi \<and> Op event AND fsnotify_Remove = fsnotify_Remove
      then ([], Returned None)
      else healthCheck_loop dpi evs)"
| "healthCheck_loop dpi (WatcherError err # evs) = healthCheck_loop dpi evs"

definition healthCheck ::
  "BridgeDevicePlugin \<Rightarrow> healthCheck_env \<Rightarrow> hc_event list \<Rightarrow> deviceHealth list \<times> outcome" where
  "healthCheck dpi env evs =
     (case NewHandle_err env of
        Some err \<Rightarrow> ([], Returned (Some (''failed to create netlink handle: '' @ err)))
      | None \<Rightarrow>
     (case LinkSubscribe_err env of
        Some err \<Rightarrow> ([], Returned (Some (''failed to subscribe to link updates: '' @ err)))
      | None \<Rightarrow>
     (case NewWatcher_err env of
        Some err \<Rightarrow> ([], Returned (Some (''failed to create fsnotify watcher: '' @ err)))
      | None \<Rightarrow>
     (case watcher_Add_err env of
        Some err \<Rightarrow>
          ([], Returned (Some (''failed to add socket directory to watcher: '' @ err)))
      | None \<Rightarrow>
     (case Stat_err env of
        Some err \<Rightarrow>
          ([], Returned (Some (''failed to stat the device-plugin socket: '' @ err)))
      | None \<Rightarrow>
     (case LinkByName env of
        LinkNotFoundError err \<Rightarrow>
          (let (pubs, r) = healthCheck_loop dpi evs
           in (\<lparr>DevId = [], dh_Health = Unhealthy\<rparr> # pubs, r))
      | LinkError err \<Rightarrow> ([], Returned (Some (''could not check the bridge: '' @ err)))
      | LinkFound link \<Rightarrow>
          (if OperState (Attrs link) = OperUp
           then (let (pubs, r) = healthCheck_loop dpi evs
                 in (\<lparr>DevId = [], dh_Health = Healthy\<rparr> # pubs, r))
           else (let (pubs, r) = healthCheck_loop dpi evs
                 in (\<lparr>DevId = [], dh_Health = Unhealthy\<rparr> # pubs, r)))))))))"

text \<open>
  The reading of the specification the health loop is compared with: the operational
  states the loop observes for its bridge, \<open>None\<close> standing for an absent link, and
  the health each observation stands for.
\<close>

fun spec_observed_updates :: "BridgeDevicePlugin \<Rightarrow> hc_event list \<Rightarrow> LinkOperState option list" where
  "spec_observed_updates dpi [] = []"
| "spec_observed_updates dpi (StopSignal # evs) = []"
| "spec_observed_updates dpi (Update u # evs) =
     (if Name (Attrs (upd_Link u)) = deviceName dpi
      then Some (OperState (Attrs (upd_Link u))) # spec_observed_updates dpi evs
      else spec_observed_updates dpi evs)"
| "spec_observed_updates dpi (WatcherEvent e # evs) =
     (if ev_Name e = socketPath dpi \<and> bit (Op e) 2 then []
      else spec_observed_updates dpi evs)"
| "spec_observed_updates dpi (WatcherError err # evs) = spec_observed_updates dpi evs"

definition spec_observed ::
  "BridgeDevicePlugin \<Rightarrow> healthCheck_env \<Rightarrow> hc_event list \<Rightarrow> LinkOperState option list" where
  "spec_observed dpi env evs =
     (if NewHandle_err env = None \<and> LinkSubscribe_err env = None \<and> NewWatcher_err env = None
         \<and> watcher_Add_err env = None \<and> Stat_err env = None
      then (case LinkByName env of
              LinkNotFoundError err \<Rightarrow> None # spec_observed_updates dpi evs
            | LinkError err \<Rightarrow> []
            | LinkFound link \<Rightarrow> Some (OperState (Attrs link)) # spec_observed_updates dpi evs)
      else [])"

definition spec_health :: "LinkOperState option \<Rightarrow> string" where
  "spec_health st = (if st = Some OperUp then Healthy else Unhealthy)"

subsection \<open>Stopping a plugin\<close>

text \<open>
  The part of the node a plugin acts on when it stops: the channels, the files that
  exist, the files whose removal the system refuses, and the log of the actions taken,
  in order. \<^verbatim>\<open>os.Remove\<close> fails with \<^verbatim>\<open>os.ErrNotExist\<close> on a missing file.
\<close>

datatype action =
  ActWait Duration | ActServerStop | ActSetInitialized bool | ActRemove string
  | ActTickerStop | ActClose "chan option"

record node =
  chs :: chans
  files :: "string list"
  undeletable :: "string list"
  trace :: "action list"

definition ErrNotExist :: go_error where
  "ErrNotExist = ''file does not exist''"

definition ErrPermission :: go_error where
  "ErrPermission = ''permission denied''"

definition os_Remove :: "node \<Rightarrow> string \<Rightarrow> go_error option \<times> node" where
  "os_Remove n path =
     (let n' = n\<lparr>trace := trace n @ [ActRemove path]\<rparr>
      in if path \<notin> set (files n) then (Some ErrNotExist, n')
         else if path \<in> set (undeletable n) then (Some ErrPermission, n')
         else (None, n'\<lparr>files := removeAll path (files n)\<rparr>))"

definition cleanup :: "BridgeDevicePlugin \<Rightarrow> node \<Rightarrow> go_error option \<times> node" where
  "cleanup dpi n =
     (let (err, n') = os_Remove n (socketPath dpi)
      in if err \<noteq> None \<and> err \<noteq> Some ErrNotExist then (err, n') else (None, n'))"

text \<open>
  The body of \<^verbatim>\<open>stopDevicePlugin\<close> after its two \<^verbatim>\<open>defer\<close> statements. The \<^verbatim>\<open>select\<close>
  ends when \<^verbatim>\<open>deregistered\<close> is closed or the one-second ticker fires, whichever comes
  first; \<open>dereg\<close> is the time after which the list-and-watch handler closes
  \<^verbatim>\<open>deregistered\<close>, if it ever does. A receive from a nil channel blocks for ever.
\<close>

definition stopDevicePlugin_body ::
  "Duration option \<Rightarrow> BridgeDevicePlugin \<Rightarrow> node \<Rightarrow> outcome \<times> BridgeDevicePlugin \<times> node" where
  "stopDevicePlugin_body dereg dpi n =
     (let n1 =
            (if IsChanClosed (chs n) (deregistered dpi)
             then n\<lparr>trace := trace n @ [ActWait 0]\<rparr>
             else (case (deregistered dpi, dereg) of
                     (Some c, Some t) \<Rightarrow>
                       if 0 \<le> t \<and> t < 1 * Second \<and> c < length (chs n)
                       then n\<lparr>chs := (chs n)[c := True], trace := trace n @ [ActWait t]\<rparr>
                       else n\<lparr>trace := trace n @ [ActWait (1 * Second)]\<rparr>
                   | _ \<Rightarrow> n\<lparr>trace := trace n @ [ActWait (1 * Second)]\<rparr>))
      in case server dpi of
           None \<Rightarrow> (Panicked NilPointerDereference, dpi, n1)
         | Some srv \<Rightarrow>
             (let dpi1 = dpi\<lparr>server := Some Stopped\<rparr>;
                  n2 = n1\<lparr>trace := trace n1 @ [ActServerStop]\<rparr>;
                  dpi2 = setInitialized dpi1 False;
                  n3 = n2\<lparr>trace := trace n2 @ [ActSetInitialized False]\<rparr>;
                  (err, n4) = cleanup dpi2 n3
              in (Returned err, dpi2, n4)))"

text \<open>
  The deferred calls run when the body has ended, last deferred first:
  \<^verbatim>\<open>ticker.Stop()\<close>, then the function that closes \<^verbatim>\<open>done\<close> unless it is closed. They
  run after a panic of the body as well, and the panic goes on.
\<close>

definition stopDevicePlugin ::
  "Duration option \<Rightarrow> BridgeDevicePlugin \<Rightarrow> node \<Rightarrow> outcome \<times> BridgeDevicePlugin \<times> node" where
  "stopDevicePlugin dereg dpi n =
     (let (r, dpi', n') = stopDevicePlugin_body dereg dpi n;
          n1 = n'\<lparr>trace := trace n' @ [ActTickerStop]\<rparr>
      in if \<not> IsChanClosed (chs n1) (done_ch dpi')
         then (case close_chan (chs n1) (done_ch dpi') of
                 Inl p \<Rightarrow> (Panicked p, dpi', n1)
               | Inr cs \<Rightarrow>
                   (r, dpi', n1\<lparr>chs := cs, trace := trace n1 @ [ActClose (done_ch dpi')]\<rparr>))
         else (r, dpi', n1))"

section \<open>The supervised-start wrapper\<close>

definition defaultBackoffTime :: "Duration list" where
  "defaultBackoffTime = [1 * Second, 2 * Second, 5 * Second, 10 * Second]"

text \<open>
  The restart loop that \<^verbatim>\<open>controlledDevice.Start\<close> runs in its goroutine. Each round
  calls \<^verbatim>\<open>dev.Start(stop)\<close>, updates \<open>retries\<close>, reads \<^verbatim>\<open>backoff[retries]\<close> for the
  timer (an index out of range panics) and then takes one case of the \<^verbatim>\<open>select\<close>.
  A round of the run is the error \<^verbatim>\<open>dev.Start\<close> returned and whether \<^verbatim>\<open>stop\<close> was
  closed before the timer fired. \<^verbatim>\<open>math.Min\<close> on the two converted values is exact,
  so the update is the minimum of the integers.
\<close>

datatype loop_event = CallStart | WaitBackoff Duration

definition next_retries :: "Duration list \<Rightarrow> int \<Rightarrow> go_error option \<Rightarrow> int" where
  "next_retries backoff retries err =
     (if err \<noteq> None then min (retries + 1) (int (length backoff) - 1) else 0)"

fun restart_loop ::
  "Duration list \<Rightarrow> int \<Rightarrow> (go_error option \<times> bool) list \<Rightarrow> loop_event list \<times> outcome" where
  "restart_loop backoff retries [] = ([], Blocked)"
| "restart_loop backoff retries ((err, stopped) # rounds) =
     (let retries' = next_retries backoff retries err
      in if retries' < 0 \<or> int (length backoff) \<le> retries'
         then ([CallStart], Panicked IndexOutOfRange)
         else if stopped then ([CallStart], Returned None)
         else (let (evs, r) = restart_loop backoff retries' rounds
               in (CallStart # WaitBackoff (backoff ! nat retries') # evs, r)))"

text \<open>
  A \<^verbatim>\<open>Device\<close> is a reference to a plugin on the heap. The world of the supervisor
  holds the channels, the restart loops started so far (each with its stop channel,
  its device and its backoff schedule) and the heap of plugins. A restart loop is
  alive until its stop channel is closed.
\<close>

type_synonym Device = nat

record controlledDevice =
  devicePlugin :: Device
  started :: bool
  stopChan :: "chan option"
  backoff :: "Duration list option"

record world =
  w_chans :: chans
  restartLoops :: "(chan \<times> Device \<times> Duration list) list"
  heap :: "Device \<Rightarrow> BridgeDevicePlugin"

definition controlledDevice_Start :: "controlledDevice \<Rightarrow> world \<Rightarrow> controlledDevice \<times> world" where
  "controlledDevice_Start c w =
     (if started c then (c, w)
      else (let (stop, cs) = make_chan (w_chans w);
                dev = devicePlugin c;
                backoff' = (case backoff c of None \<Rightarrow> defaultBackoffTime | Some b \<Rightarrow> b);
                w' = w\<lparr>w_chans := cs, restartLoops := restartLoops w @ [(stop, dev, backoff')]\<rparr>
            in (c\<lparr>stopChan := Some stop, started := True\<rparr>, w')))"

definition controlledDevice_Stop ::
  "controlledDevice \<Rightarrow> world \<Rightarrow> panic + (controlledDevice \<times> world)" where
  "controlledDevice_Stop c w =
     (if \<not> started c then Inr (c, w)
      else (case close_chan (w_chans w) (stopChan c) of
              Inl p \<Rightarrow> Inl p
            | Inr cs \<Rightarrow> Inr (c\<lparr>stopChan := None, started := False\<rparr>, w\<lparr>w_chans := cs\<rparr>)))"

definition controlledDevice_GetName :: "controlledDevice \<Rightarrow> world \<Rightarrow> string" where
  "controlledDevice_GetName c w = GetDeviceName (heap w (devicePlugin c))"

section \<open>The device supervisor\<close>

text \<open>
  The two maps of the controller are association lists with one entry per key:
  \<^verbatim>\<open>m[k] = v\<close> is \<open>AList.update\<close>, \<^verbatim>\<open>delete(m, k)\<close> is \<open>AList.delete\<close>, a lookup is
  \<open>map_of\<close>. A \<^verbatim>\<open>range\<close> loop visits the entries in some order; the order of the list
  stands for it. The map stores each wrapper by value.
\<close>

record BridgeDeviceController =
  permanentPlugins :: "(string \<times> Device) list"
  startedPlugins :: "(string \<times> controlledDevice) list"
  maxDevices :: int
  ctl_backoff :: "Duration list option"

fun permanentPluginsMap :: "world \<Rightarrow> Device list \<Rightarrow> (string \<times> Device) list \<Rightarrow> (string \<times> Device) list" where
  "permanentPluginsMap w [] m = m"
| "permanentPluginsMap w (p # ps) m =
     permanentPluginsMap w ps (AList.update (GetDeviceName (heap w p)) p m)"

definition NewBridgeDeviceController ::
  "world \<Rightarrow> Device list \<Rightarrow> int \<Rightarrow> BridgeDeviceController" where
  "NewBridgeDeviceController w plugins maxDevs =
     \<lparr>permanentPlugins = permanentPluginsMap w plugins [],
      startedPlugins = [],
      maxDevices = maxDevs,
      ctl_backoff = Some defaultBackoffTime\<rparr>"

definition stopDevice ::
  "BridgeDeviceController \<Rightarrow> world \<Rightarrow> string \<Rightarrow> panic + (BridgeDeviceController \<times> world)" where
  "stopDevice c w name =
     (case map_of (startedPlugins c) name of
        None \<Rightarrow> Inr (c, w)
      | Some dev \<Rightarrow>
          (case controlledDevice_Stop dev w of
             Inl p \<Rightarrow> Inl p
           | Inr (dev', w') \<Rightarrow>
               Inr (c\<lparr>startedPlugins := AList.delete name (startedPlugins c)\<rparr>, w')))"

definition startDevice ::
  "BridgeDeviceController \<Rightarrow> world \<Rightarrow> string \<Rightarrow> Device
     \<Rightarrow> panic + (BridgeDeviceController \<times> world)" where
  "startDevice c w name dev =
     (case stopDevice c w name of
        Inl p \<Rightarrow> Inl p
      | Inr (c1, w1) \<Rightarrow>
          (let controlledDev =
                 \<lparr>devicePlugin = dev, started = False, stopChan = None, backoff = ctl_backoff c1\<rparr>;
               (controlledDev', w2) = controlledDevice_Start controlledDev w1
           in Inr (c1\<lparr>startedPlugins :=
                        AList.update name controlledDev' (startedPlugins c1)\<rparr>, w2)))"

fun startPermanentPlugins_loop ::
  "BridgeDeviceController \<Rightarrow> world \<Rightarrow> (string \<times> Device) list
     \<Rightarrow> panic + (BridgeDeviceController \<times> world)" where
  "startPermanentPlugins_loop c w [] = Inr (c, w)"
| "startPermanentPlugins_loop c w ((name, dev) # rest) =
     (case startDevice c w name dev of
        Inl p \<Rightarrow> Inl p
      | Inr (c', w') \<Rightarrow> startPermanentPlugins_loop c' w' rest)"

definition startPermanentPlugins ::
  "BridgeDeviceController \<Rightarrow> world \<Rightarrow> panic + (BridgeDeviceController \<times> world)" where
  "startPermanentPlugins c w = startPermanentPlugins_loop c w (permanentPlugins c)"

fun stopAllPlugins_loop ::
  "BridgeDeviceController \<Rightarrow> world \<Rightarrow> string list
     \<Rightarrow> panic + (BridgeDeviceController \<times> world)" where
  "stopAllPlugins_loop c w [] = Inr (c, w)"
| "stopAllPlugins_loop c w (name # rest) =
     (case stopDevice c w name of
        Inl p \<Rightarrow> Inl p
      | Inr (c', w') \<Rightarrow> stopAllPlugins_loop c' w' rest)"

definition stopAllPlugins ::
  "BridgeDeviceController \<Rightarrow> world \<Rightarrow> panic + (BridgeDeviceController \<times> world)" where
  "stopAllPlugins c w = stopAllPlugins_loop c w (map fst (startedPlugins c))"

text \<open>
  \<^verbatim>\<open>startNewPlugin\<close> receives what the main loop read from \<^verbatim>\<open>newPlugins\<close>; a receive
  from the closed channel yields the nil \<^verbatim>\<open>Device\<close>, on which \<^verbatim>\<open>GetDeviceName\<close> panics.
\<close>

definition startNewPlugin ::
  "BridgeDeviceController \<Rightarrow> world \<Rightarrow> Device option
     \<Rightarrow> panic + (BridgeDeviceController \<times> world)" where
  "startNewPlugin c w device =
     (case device of
        None \<Rightarrow> Inl NilPointerDereference
      | Some dev \<Rightarrow> startDevice c w (GetDeviceName (heap w dev)) dev)"

fun Initialized_loop :: "world \<Rightarrow> (string \<times> controlledDevice) list \<Rightarrow> bool" where
  "Initialized_loop w [] = True"
| "Initialized_loop w ((name, dev) # rest) =
     (if \<not> GetInitialized (heap w (devicePlugin dev)) then False
      else Initialized_loop w rest)"

definition Initialized :: "BridgeDeviceController \<Rightarrow> world \<Rightarrow> bool" where
  "Initialized c w = Initialized_loop w (startedPlugins c)"

text \<open>
  The main loop of \<^verbatim>\<open>Run\<close> after the permanent plugins are started: each event is a
  receive from \<^verbatim>\<open>newPlugins\<close> or the closing of \<^verbatim>\<open>stop\<close>. With no event left \<^verbatim>\<open>Run\<close>
  is blocked in its \<^verbatim>\<open>select\<close>. A panic ends the process; the state returned with it
  is the one before the call that panicked.
\<close>

datatype run_event = RecvNewPlugin "Device option" | RecvStop

fun Run_loop ::
  "BridgeDeviceController \<Rightarrow> world \<Rightarrow> run_event list
     \<Rightarrow> outcome \<times> BridgeDeviceController \<times> world" where
  "Run_loop c w [] = (Blocked, c, w)"
| "Run_loop c w (RecvNewPlugin device # evs) =
     (case startNewPlugin c w device of
        Inl p \<Rightarrow> (Panicked p, c, w)
      | Inr (c', w') \<Rightarrow> Run_loop c' w' evs)"
| "Run_loop c w (RecvStop # evs) =
     (case stopAllPlugins c w of
        Inl p \<Rightarrow> (Panicked p, c, w)
      | Inr (c', w') \<Rightarrow> (Returned None, c', w'))"

definition Run ::
  "BridgeDeviceController \<Rightarrow> world \<Rightarrow> run_event list
     \<Rightarrow> outcome \<times> BridgeDeviceController \<times> world" where
  "Run c w evs =
     (case startPermanentPlugins c w of
        Inl p \<Rightarrow> (Panicked p, c, w)
      | Inr (c', w') \<Rightarrow> Run_loop c' w' evs)"

text \<open>
  \<^verbatim>\<open>ScanForNewDevices\<close> turns each link update that announces a bridge
  (\<^verbatim>\<open>RTM_NEWLINK\<close>) into a new plugin for that bridge, sent on \<^verbatim>\<open>newPlugins\<close>.
\<close>

fun ScanForNewDevices :: "int \<Rightarrow> LinkUpdate list \<Rightarrow> BridgeDevicePlugin list" where
  "ScanForNewDevices maxDevs [] = []"
| "ScanForNewDevices maxDevs (update # updates) =
     (let link = upd_Link update
      in if LinkType link = Bridge \<and> Header_Type update = RTM_NEWLINK
         then NewBridgeDevicePlugin (Name (Attrs link)) maxDevs # ScanForNewDevices maxDevs updates
         else ScanForNewDevices maxDevs updates)"

text \<open>
  The restart loops that are alive, and the invariant of the supervisor: the running
  map has one entry per key; every restart loop has a channel of its own; every
  wrapper in the map is started, is stored under the name of its device and owns a
  live restart loop; and every live restart loop belongs to the wrapper stored under
  the name of its device.
\<close>

definition live_loops :: "world \<Rightarrow> (chan \<times> Device \<times> Duration list) list" where
  "live_loops w =
     filter (\<lambda>(ch, dev, b). \<not> IsChanClosed (w_chans w) (Some ch)) (restartLoops w)"

definition running_inv :: "BridgeDeviceController \<Rightarrow> world \<Rightarrow> bool" where
  "running_inv c w =
     (distinct (map fst (startedPlugins c))
      \<and> distinct (map fst (restartLoops w))
      \<and> (\<forall>(ch, dev, b) \<in> set (restartLoops w). ch < length (w_chans w))
      \<and> (\<forall>(name, cd) \<in> set (startedPlugins c).
            started cd \<and> name = GetDeviceName (heap w (devicePlugin cd))
            \<and> (case stopChan cd of
                   None \<Rightarrow> False
                 | Some ch \<Rightarrow>
                     (ch, devicePlugin cd) \<in> set (map (\<lambda>(ch, dev, b). (ch, dev)) (live_loops w))))
      \<and> (\<forall>(ch, dev, b) \<in> set (live_loops w).
            (case map_of (startedPlugins c) (GetDeviceName (heap w dev)) of
               None \<Rightarrow> False
             | Some cd \<Rightarrow> stopChan cd = Some ch \<and> devicePlugin cd = dev)))"

text \<open>
  The last two clauses of the invariant, read for one wrapper and for one restart
  loop.
\<close>

definition wrapper_ok :: "world \<Rightarrow> string \<Rightarrow> controlledDevice \<Rightarrow> bool" where
  "wrapper_ok w name cd \<longleftrightarrow>
     started cd \<and> name = GetDeviceName (heap w (devicePlugin cd))
     \<and> (\<exists>ch b. stopChan cd = Some ch \<and> (ch, devicePlugin cd, b) \<in> set (restartLoops w)
            \<and> \<not> w_chans w ! ch)"

definition loop_ok :: "BridgeDeviceController \<Rightarrow> world \<Rightarrow> chan \<Rightarrow> Device \<Rightarrow> bool" where
  "loop_ok c w ch dev \<longleftrightarrow>
     (\<exists>cd. map_of (startedPlugins c) (GetDeviceName (heap w dev)) = Some cd
          \<and> stopChan cd = Some ch \<and> devicePlugin cd = dev)"

section \<open>Agent-facing handlers without effects\<close>

text \<open>
  \<^verbatim>\<open>Allocate\<close> logs the request and answers with one fresh, empty container response,
  whatever the request holds. The handlers below take the request the gRPC runtime
  decoded, which is never nil.
\<close>

definition Allocate ::
  "BridgeDevicePlugin \<Rightarrow> AllocateRequest \<Rightarrow> AllocateResponse option \<times> go_error option" where
  "Allocate dpi r =
     (let containerResponse = new_ContainerAllocateResponse;
          res = \<lparr>ContainerResponses = [containerResponse]\<rparr>
      in (Some res, None))"

definition GetDevicePluginOptions ::
  "BridgeDevicePlugin \<Rightarrow> DevicePluginOptions option \<times> go_error option" where
  "GetDevicePluginOptions dpi =
     (let options = \<lparr>PreStartRequired = False, GetPreferredAllocationAvailable = False\<rparr>
      in (Some options, None))"

definition PreStartContainer ::
  "BridgeDevicePlugin \<Rightarrow> PreStartContainerRequest
     \<Rightarrow> PreStartContainerResponse option \<times> go_error option" where
  "PreStartContainer dpi r = (Some PreStartContainerResponse, None)"

definition GetPreferredAllocation ::
  "BridgeDevicePlugin \<Rightarrow> PreferredAllocationRequest
     \<Rightarrow> PreferredAllocationResponse option \<times> go_error option" where
  "GetPreferredAllocation dpi r = (Some \<lparr>pa_ContainerResponses = []\<rparr>, None)"

section \<open>Example values\<close>

text \<open>
  A node with three bridges: the heap holds one plugin for each of \<^verbatim>\<open>br0\<close>, \<^verbatim>\<open>br1\<close>
  and \<^verbatim>\<open>br2\<close>, no channel is made and no restart loop runs. The example plugin is
  the plugin of a bridge as \<^verbatim>\<open>Start\<close> has set it up: the server serves, \<^verbatim>\<open>stop\<close>,
  \<^verbatim>\<open>done\<close> and \<^verbatim>\<open>deregistered\<close> are the channels 0, 1 and 2.
\<close>

definition example_heap :: "Device \<Rightarrow> BridgeDevicePlugin" where
  "example_heap dev =
     NewBridgeDevicePlugin (if dev = 0 then ''br0'' else if dev = 1 then ''br1'' else ''br2'') 2"

definition example_world :: world where
  "example_world = \<lparr>w_chans = [], restartLoops = [], heap = example_heap\<rparr>"

definition example_plugin :: "string \<Rightarrow> BridgeDevicePlugin" where
  "example_plugin name =
     (NewBridgeDevicePlugin name 2)
       \<lparr>server := Some Serving, stop := Some 0, done_ch := Some 1, initialized := True,
        deregistered := Some 2\<rparr>"

definition example_node :: "string \<Rightarrow> node" where
  "example_node name =
     \<lparr>chs = [False, False, False], files = [SocketPath name], undeletable = [], trace = []\<rparr>"

section \<open>Properties of the socket path\<close>

lemma SocketPath_closed_form:
  assumes "CHR ''/'' \<notin> set d"
  shows "SocketPath d = ''/var/lib/kubelet/device-plugins/kubevirt-'' @ d @ ''.sock''"
proof -
  have tw: "takeWhile (\<lambda>x. x \<noteq> CHR ''/'') (d @ ''.sock'') = d @ ''.sock''"
    using assms by (intro takeWhile_append2[THEN trans]) auto
  have dw: "dropWhile (\<lambda>x. x \<noteq> CHR ''/'') (d @ ''.sock'') = []"
    using assms by (intro dropWhile_append2[THEN trans]) auto
  show ?thesis
    by (simp add: SocketPath_def DevicePluginPath_def Clean_def tw dw)
qed

text \<open>
  The value of the plugin directory plays no part in what follows it: \<^verbatim>\<open>Clean\<close> reads
  the path from left to right, so the directory and the slash after it leave a state
  of the scan that the last element is appended to.
\<close>

lemma takeWhile_before_slash:
  "takeWhile (\<lambda>x. x \<noteq> CHR ''/'') (xs @ CHR ''/'' # ys) = takeWhile (\<lambda>x. x \<noteq> CHR ''/'') xs"
  by (induction xs) auto

lemma dropWhile_before_slash:
  "dropWhile (\<lambda>x. x \<noteq> CHR ''/'') (xs @ CHR ''/'' # ys)
     = dropWhile (\<lambda>x. x \<noteq> CHR ''/'') xs @ CHR ''/'' # ys"
  by (induction xs) auto

lemma Clean_loop_prefix:
  "\<exists>dotdot' out'. \<forall>seg.
     Clean_loop rooted dotdot out (p @ CHR ''/'' # seg) = Clean_loop rooted dotdot' out' seg"
proof (induction "length p" arbitrary: p dotdot out rule: less_induct)
  case less
  show ?case
  proof (cases p)
    case Nil
    then show ?thesis by auto
  next
    case (Cons c cs)
    note p = Cons
    have ih: "\<exists>dotdot' out'. \<forall>seg.
        Clean_loop rooted dd o' (q @ CHR ''/'' # seg) = Clean_loop rooted dotdot' out' seg"
      if "length q < length p" for q dd o'
      using less [OF that] .
    consider (slash) "c = CHR ''/''"
      | (dot) "c = CHR ''.''" "cs = [] \<or> (\<exists>cs'. cs = CHR ''/'' # cs')"
      | (dotdot) "c = CHR ''.''" "cs = ''.'' \<or> (\<exists>cs'. cs = CHR ''.'' # CHR ''/'' # cs')"
      | (elem) "c \<noteq> CHR ''/''"
          "\<not> (c = CHR ''.'' \<and> (cs = [] \<or> (\<exists>cs'. cs = CHR ''/'' # cs')))"
          "\<not> (c = CHR ''.'' \<and> (cs = ''.'' \<or> (\<exists>cs'. cs = CHR ''.'' # CHR ''/'' # cs')))"
      by blast
    then show ?thesis
    proof cases
      case slash
      from ih [of cs dotdot out] p obtain dd' o' where
        "\<forall>seg. Clean_loop rooted dotdot out (cs @ CHR ''/'' # seg) = Clean_loop rooted dd' o' seg"
        by auto
      with slash p have "\<forall>seg. Clean_loop rooted dotdot out (p @ CHR ''/'' # seg) =
          Clean_loop rooted dd' o' seg"
        by simp
      then show ?thesis by blast
    next
      case dot
      from ih [of cs dotdot out] p obtain dd' o' where
        "\<forall>seg. Clean_loop rooted dotdot out (cs @ CHR ''/'' # seg) = Clean_loop rooted dd' o' seg"
        by auto
      with dot p have "\<forall>seg. Clean_loop rooted dotdot out (p @ CHR ''/'' # seg) =
          Clean_loop rooted dd' o' seg"
        by auto
      then show ?thesis by blast
    next
      case dotdot
      then obtain cs' where cs: "cs = CHR ''.'' # cs'" and cs': "cs' = [] \<or> (\<exists>t. cs' = CHR ''/'' # t)"
        by auto
      have step: "Clean_loop rooted dotdot out (p @ CHR ''/'' # seg) =
          (if length out > dotdot
             then Clean_loop rooted dotdot
                    (take (backtrack dotdot out (length out - 1)) out) (cs' @ CHR ''/'' # seg)
           else if \<not> rooted
             then Clean_loop rooted (length ((if length out > 0 then out @ ''/'' else out) @ ''..''))
                    ((if length out > 0 then out @ ''/'' else out) @ ''..'') (cs' @ CHR ''/'' # seg)
           else Clean_loop rooted dotdot out (cs' @ CHR ''/'' # seg))" for seg
        using dotdot(1) cs cs' p by (auto simp: Let_def)
      have lt: "length cs' < length p" using cs p by simp
      show ?thesis
      proof (cases "length out > dotdot")
        case True
        from ih [OF lt, of dotdot "take (backtrack dotdot out (length out - 1)) out"]
        show ?thesis unfolding step using True by simp
      next
        case False
        show ?thesis
        proof (cases rooted)
          case True
          from ih [OF lt, of dotdot out] show ?thesis
            unfolding step using True False by simp
        next
          case nr: False
          from ih [OF lt, of "length ((if length out > 0 then out @ ''/'' else out) @ ''..'')"
              "(if length out > 0 then out @ ''/'' else out) @ ''..''"]
          show ?thesis
            unfolding step using nr False by simp
        qed
      qed
    next
      case elem
      let ?o = "(if rooted \<and> length out \<noteq> 1 \<or> \<not> rooted \<and> length out \<noteq> 0
                     then out @ ''/'' else out) @ takeWhile (\<lambda>x. x \<noteq> CHR ''/'') p"
      let ?q = "dropWhile (\<lambda>x. x \<noteq> CHR ''/'') p"
      have step: "Clean_loop rooted dotdot out (p @ CHR ''/'' # seg) =
          Clean_loop rooted dotdot ?o (?q @ CHR ''/'' # seg)" for seg
      proof -
        have "Clean_loop rooted dotdot out (c # (cs @ CHR ''/'' # seg)) =
          Clean_loop rooted dotdot
            ((if rooted \<and> length out \<noteq> 1 \<or> \<not> rooted \<and> length out \<noteq> 0
                     then out @ ''/'' else out)
               @ takeWhile (\<lambda>x. x \<noteq> CHR ''/'') (c # (cs @ CHR ''/'' # seg)))
            (dropWhile (\<lambda>x. x \<noteq> CHR ''/'') (c # (cs @ CHR ''/'' # seg)))"
          using elem by (cases cs; cases "tl cs") (auto simp: Let_def)
        moreover have "c # (cs @ CHR ''/'' # seg) = p @ CHR ''/'' # seg"
          using p by simp
        ultimately show ?thesis
          by (simp only: takeWhile_before_slash dropWhile_before_slash)
      qed
      have lt: "length ?q < length p"
        using elem(1) p by (simp add: le_imp_less_Suc length_dropWhile_le)
      from ih [OF lt, of dotdot ?o] show ?thesis
        unfolding step by blast
    qed
  qed
qed


lemma Clean_loop_socket_elem:
  assumes "CHR ''/'' \<notin> set d"
  shows "Clean_loop rooted dotdot out (''kubevirt-'' @ d @ ''.sock'') =
     (if rooted \<and> length out \<noteq> 1 \<or> \<not> rooted \<and> length out \<noteq> 0 then out @ ''/'' else out)
       @ ''kubevirt-'' @ d @ ''.sock''"
proof -
  have tw: "takeWhile (\<lambda>x. x \<noteq> CHR ''/'') (d @ ''.sock'') = d @ ''.sock''"
    using assms by (intro takeWhile_append2[THEN trans]) auto
  have dw: "dropWhile (\<lambda>x. x \<noteq> CHR ''/'') (d @ ''.sock'') = []"
    using assms by (intro dropWhile_append2[THEN trans]) auto
  show ?thesis
    by (simp add: tw dw)
qed

lemma filepath_Join_socket:
  "\<exists>pre. \<forall>d. CHR ''/'' \<notin> set d \<longrightarrow>
     filepath_Join [dir, ''kubevirt-'' @ d @ ''.sock''] = pre @ ''kubevirt-'' @ d @ ''.sock''"
proof (cases dir)
  case Nil
  have "filepath_Join [[], ''kubevirt-'' @ d @ ''.sock''] = [] @ ''kubevirt-'' @ d @ ''.sock''"
    if "CHR ''/'' \<notin> set d" for d
    using Clean_loop_socket_elem [OF that, of False 0 "[]"]
    by (simp add: Clean_def)
  with Nil show ?thesis by blast
next
  case (Cons c cs)
  let ?rooted = "c = CHR ''/''"
  let ?rest = "if ?rooted then cs else c # cs"
  from Clean_loop_prefix [of ?rooted "if ?rooted then 1 else 0" "if ?rooted then ''/'' else []" ?rest]
  obtain dd' out' where
    pre: "\<forall>seg. Clean_loop ?rooted (if ?rooted then 1 else 0) (if ?rooted then ''/'' else [])
            (?rest @ CHR ''/'' # seg) = Clean_loop ?rooted dd' out' seg"
    by blast
  let ?pre = "if ?rooted \<and> length out' \<noteq> 1 \<or> \<not> ?rooted \<and> length out' \<noteq> 0
              then out' @ ''/'' else out'"
  have "filepath_Join [dir, ''kubevirt-'' @ d @ ''.sock''] = ?pre @ ''kubevirt-'' @ d @ ''.sock''"
    if "CHR ''/'' \<notin> set d" for d
  proof -
    have "Clean_loop ?rooted (if ?rooted then 1 else 0) (if ?rooted then ''/'' else [])
            (?rest @ CHR ''/'' # (''kubevirt-'' @ d @ ''.sock''))
          = ?pre @ ''kubevirt-'' @ d @ ''.sock''"
      using pre Clean_loop_socket_elem [OF that, of ?rooted dd' out'] by simp
    moreover have "filepath_Join [dir, ''kubevirt-'' @ d @ ''.sock''] =
        (let out = Clean_loop ?rooted (if ?rooted then 1 else 0) (if ?rooted then ''/'' else [])
            (?rest @ CHR ''/'' # (''kubevirt-'' @ d @ ''.sock''))
         in if out = [] then ''.'' else out)"
      using Cons by (simp add: Clean_def Let_def del: Clean_loop.simps)
    ultimately show ?thesis
      by (simp add: Let_def del: Clean_loop.simps)
  qed
  then show ?thesis by blast
qed

lemma filepath_Join_socket_inj:
  assumes "CHR ''/'' \<notin> set d1" and "CHR ''/'' \<notin> set d2"
    and "filepath_Join [dir, ''kubevirt-'' @ d1 @ ''.sock'']
       = filepath_Join [dir, ''kubevirt-'' @ d2 @ ''.sock'']"
  shows "d1 = d2"
proof -
  from filepath_Join_socket [of dir] obtain pre where
    "\<forall>d. CHR ''/'' \<notin> set d \<longrightarrow>
     filepath_Join [dir, ''kubevirt-'' @ d @ ''.sock''] = pre @ ''kubevirt-'' @ d @ ''.sock''"
    by blast
  with assms show ?thesis by simp
qed

text \<open>
  A name with a slash is not a link name of the kernel, and \<^verbatim>\<open>filepath.Join\<close> cleans
  the path: two such names can share a socket path.
\<close>

lemma SocketPath_slash_collision:
  "SocketPath ''a/../x'' = SocketPath ''b/../x''"
  by code_simp


text \<open>
  C9: \<^verbatim>\<open>SocketPath\<close> is a function of the device name alone. On a device name without
  a slash (every link name of the kernel is one) it is the plugin directory followed
  by \<^verbatim>\<open>kubevirt-\<close>, the name and \<^verbatim>\<open>.sock\<close>, and two such names with the same socket
  path are equal; the same holds with any other plugin directory in the place of
  \<^verbatim>\<open>pluginapi.DevicePluginPath\<close>.
\<close>

theorem SocketPath_injective:
  assumes "CHR ''/'' \<notin> set d1" and "CHR ''/'' \<notin> set d2"
  shows "SocketPath d1 = DevicePluginPath @ ''kubevirt-'' @ d1 @ ''.sock''
         \<and> (SocketPath d1 = SocketPath d2) = (d1 = d2)
         \<and> (\<forall>dir. filepath_Join [dir, ''kubevirt-'' @ d1 @ ''.sock'']
                   = filepath_Join [dir, ''kubevirt-'' @ d2 @ ''.sock''] \<longrightarrow> d1 = d2)"
  using assms filepath_Join_socket_inj [OF assms]
  by (simp add: SocketPath_closed_form DevicePluginPath_def)

theorem SocketPath_injective_witness:
  "SocketPath ''br0'' = ''/var/lib/kubelet/device-plugins/kubevirt-br0.sock''
   \<and> SocketPath ''br0'' \<noteq> SocketPath ''br1''"
proof -
  have h0: "CHR ''/'' \<notin> set ''br0''" and h1: "CHR ''/'' \<notin> set ''br1''"
    by simp_all
  from SocketPath_injective [OF h0 h1] show ?thesis
    by (auto simp: DevicePluginPath_def)
qed

section \<open>Properties of the device list and of the health loop\<close>

lemma NewBridgeDevicePlugin_loop_eq:
  "NewBridgeDevicePlugin_loop dpi n i =
     dpi\<lparr>devs := devs dpi @ map (\<lambda>k. \<lparr>ID = deviceName dpi @ Itoa k, Health = Healthy\<rparr>) [i..n - 1]\<rparr>"
proof (induction dpi n i rule: NewBridgeDevicePlugin_loop.induct)
  case (1 dpi maxDevices i)
  show ?case
  proof (cases "i < maxDevices")
    case True
    have "[i..maxDevices - 1] = i # [i + 1..maxDevices - 1]"
      using True by (simp add: upto_rec1)
    with 1 True show ?thesis
      by (subst NewBridgeDevicePlugin_loop.simps) (simp add: Let_def)
  next
    case False
    then show ?thesis
      by (subst NewBridgeDevicePlugin_loop.simps) simp
  qed
qed

lemma NewBridgeDevicePlugin_eq:
  "NewBridgeDevicePlugin d n =
     \<lparr>devs = map (\<lambda>k. \<lparr>ID = d @ Itoa k, Health = Healthy\<rparr>) [0..n - 1],
      server = None, socketPath = SocketPath d, stop = None, deviceName = d,
      resourceName = DeviceNamespace @ ''/'' @ d, done_ch = None, initialized = False,
      deregistered = None\<rparr>"
  by (simp add: NewBridgeDevicePlugin_def Let_def NewBridgeDevicePlugin_loop_eq)

lemma NewBridgeDevicePlugin_devs:
  "devs (NewBridgeDevicePlugin d n) =
     map (\<lambda>k. \<lparr>ID = d @ Itoa k, Health = Healthy\<rparr>) [0..n - 1]"
  by (simp add: NewBridgeDevicePlugin_eq)

lemma digit_char_value: "n < 10 \<Longrightarrow> of_char (digit_char n) - 48 = n"
proof -
  assume "n < 10"
  then have "n \<in> {0, 1, 2, 3, 4, 5, 6, 7, 8, 9}" by auto
  then show ?thesis
    by (auto simp: digit_char_def)
qed

lemma decimal_value_digits10: "decimal_value (digits10 n) = n"
proof (induction n rule: digits10.induct)
  case (1 n)
  show ?case
  proof (cases "n < 10")
    case True
    then show ?thesis
      by (subst digits10.simps) (simp add: decimal_value_def digit_char_value)
  next
    case False
    with 1 have "decimal_value (digits10 (n div 10)) = n div 10" by simp
    with False show ?thesis
      by (subst digits10.simps) (simp add: decimal_value_def digit_char_value)
  qed
qed

lemma Itoa_decimal: "0 \<le> i \<Longrightarrow> decimal_value (Itoa i) = nat i"
  by (simp add: Itoa_def decimal_value_digits10)

lemma Itoa_inj: "0 \<le> i \<Longrightarrow> 0 \<le> j \<Longrightarrow> Itoa i = Itoa j \<Longrightarrow> i = j"
  using Itoa_decimal [of i] Itoa_decimal [of j] by simp

lemma NewBridgeDevicePlugin_distinct_IDs:
  "distinct (map ID (devs (NewBridgeDevicePlugin d n)))"
proof -
  have "inj_on (\<lambda>k. d @ Itoa k) (set [0..n - 1])"
    by (rule inj_onI) (auto dest: Itoa_inj)
  then show ?thesis
    by (simp add: NewBridgeDevicePlugin_eq comp_def distinct_map)
qed


lemma ListAndWatch_first:
  "\<exists>rest. fst (ListAndWatch dpi cs evs) = \<lparr>Devices = devs dpi\<rparr> # rest"
  by (simp add: ListAndWatch_def Let_def split: prod.splits sum.splits)

text \<open>
  C4: for a device name \<open>d\<close> and \<open>0 \<le> N\<close>, the plugin built by
  \<^verbatim>\<open>NewBridgeDevicePlugin(d, N)\<close> has exactly \<open>N\<close> devices, the \<open>i\<close>-th with ID \<open>d\<close>
  followed by \<^verbatim>\<open>strconv.Itoa(i)\<close>, a string of decimal digits that reads back as \<open>i\<close>,
  and health \<^verbatim>\<open>Healthy\<close>; the IDs are pairwise distinct; and the first message
  \<^verbatim>\<open>ListAndWatch\<close> sends on that plugin carries exactly this list, whatever follows.
\<close>

theorem NewBridgeDevicePlugin_slots:
  assumes "0 \<le> N"
  shows "length (devs (NewBridgeDevicePlugin d N)) = nat N
   \<and> (\<forall>i < nat N. devs (NewBridgeDevicePlugin d N) ! i = \<lparr>ID = d @ Itoa (int i), Health = Healthy\<rparr>
                  \<and> decimal_value (Itoa (int i)) = i)
   \<and> distinct (map ID (devs (NewBridgeDevicePlugin d N)))
   \<and> (\<forall>cs evs. \<exists>rest. fst (ListAndWatch (NewBridgeDevicePlugin d N) cs evs)
          = \<lparr>Devices = devs (NewBridgeDevicePlugin d N)\<rparr> # rest)"
proof (intro conjI allI impI)
  show "length (devs (NewBridgeDevicePlugin d N)) = nat N"
    using assms by (simp add: NewBridgeDevicePlugin_devs)
next
  fix i assume "i < nat N"
  then have "[0..N - 1] ! i = int i"
    by (simp add: nth_upto)
  then show "devs (NewBridgeDevicePlugin d N) ! i = \<lparr>ID = d @ Itoa (int i), Health = Healthy\<rparr>"
    using \<open>i < nat N\<close> by (simp add: NewBridgeDevicePlugin_devs)
next
  fix i
  show "decimal_value (Itoa (int i)) = i"
    by (simp add: Itoa_decimal)
next
  show "distinct (map ID (devs (NewBridgeDevicePlugin d N)))"
    by (rule NewBridgeDevicePlugin_distinct_IDs)
next
  fix cs evs
  show "\<exists>rest. fst (ListAndWatch (NewBridgeDevicePlugin d N) cs evs)
          = \<lparr>Devices = devs (NewBridgeDevicePlugin d N)\<rparr> # rest"
    by (rule ListAndWatch_first)
qed

theorem NewBridgeDevicePlugin_slots_witness:
  "devs (NewBridgeDevicePlugin ''br0'' 3) =
     [\<lparr>ID = ''br00'', Health = ''Healthy''\<rparr>, \<lparr>ID = ''br01'', Health = ''Healthy''\<rparr>,
      \<lparr>ID = ''br02'', Health = ''Healthy''\<rparr>]
   \<and> length (devs (NewBridgeDevicePlugin ''br0'' 3)) = 3"
  using NewBridgeDevicePlugin_slots [of 3 "''br0''"]
  by (simp add: NewBridgeDevicePlugin_devs upto_rec1 Itoa_def digits10.simps digit_char_def Healthy_def)

lemma Healthy_neq_Unhealthy: "Healthy \<noteq> Unhealthy"
  by (simp add: Healthy_def Unhealthy_def)

lemma bit_four_int: "bit (4 :: int) n = (n = 2)"
proof (cases n)
  case 0
  then show ?thesis by (simp add: bit_0)
next
  case (Suc n1)
  show ?thesis
  proof (cases n1)
    case 0
    with Suc show ?thesis by (simp add: bit_Suc bit_0)
  next
    case (Suc n2)
    with \<open>n = Suc n1\<close> show ?thesis
      by (cases n2) (simp_all add: bit_Suc bit_0)
  qed
qed

lemma Remove_bit: "(w AND fsnotify_Remove = fsnotify_Remove) = bit w 2" for w :: "32 word"
  unfolding fsnotify_Remove_def
proof
  assume "w AND 4 = 4"
  then have "bit (w AND 4) 2 = bit (4 :: 32 word) 2" by simp
  then show "bit w 2" by (simp add: bit_and_iff)
next
  assume "bit w 2"
  show "w AND 4 = 4"
  proof (rule bit_eqI)
    fix n
    show "bit (w AND 4) n = bit (4 :: 32 word) n"
      using \<open>bit w 2\<close> by (auto simp: bit_and_iff bit_four_int)
  qed
qed

lemma healthCheck_loop_observed:
  "fst (healthCheck_loop dpi evs) =
     map (\<lambda>st. \<lparr>DevId = [], dh_Health = spec_health st\<rparr>) (spec_observed_updates dpi evs)"
proof (induction evs)
  case Nil
  show ?case by simp
next
  case (Cons ev evs)
  show ?case
  proof (cases ev)
    case StopSignal
    then show ?thesis by simp
  next
    case (Update u)
    with Cons show ?thesis
      by (cases "healthCheck_loop dpi evs") (simp add: spec_health_def)
  next
    case (WatcherEvent e)
    with Cons show ?thesis by (simp add: Remove_bit)
  next
    case (WatcherError err)
    with Cons show ?thesis by simp
  qed
qed

lemma healthCheck_observed:
  "fst (healthCheck dpi env evs) =
     map (\<lambda>st. \<lparr>DevId = [], dh_Health = spec_health st\<rparr>) (spec_observed dpi env evs)"
proof (cases "healthCheck_loop dpi evs")
  case (Pair pubs r)
  with healthCheck_loop_observed [of dpi evs]
  have "pubs = map (\<lambda>st. \<lparr>DevId = [], dh_Health = spec_health st\<rparr>) (spec_observed_updates dpi evs)"
    by simp
  with Pair show ?thesis
    by (simp add: healthCheck_def spec_observed_def spec_health_def
        split: option.splits LinkByName_result.splits)
qed

lemma ListAndWatch_loop_health:
  "\<exists>dpi'. ListAndWatch_loop dpi (map RecvHealth hs) =
     (map (\<lambda>h. \<lparr>Devices = map (\<lambda>dev. dev\<lparr>Health := dh_Health h\<rparr>) (devs dpi)\<rparr>) hs,
      dpi', False)"
proof (induction hs arbitrary: dpi)
  case Nil
  show ?case by simp
next
  case (Cons h hs)
  obtain dpi' where
    "ListAndWatch_loop (dpi\<lparr>devs := map (\<lambda>dev. dev\<lparr>Health := dh_Health h\<rparr>) (devs dpi)\<rparr>)
        (map RecvHealth hs) =
      (map (\<lambda>h'. \<lparr>Devices = map (\<lambda>dev. dev\<lparr>Health := dh_Health h'\<rparr>)
          (devs (dpi\<lparr>devs := map (\<lambda>dev. dev\<lparr>Health := dh_Health h\<rparr>) (devs dpi)\<rparr>))\<rparr>) hs,
       dpi', False)"
    using Cons.IH by blast
  then show ?case
    by (simp add: Let_def comp_def)
qed

text \<open>
  C5: on every run of the health loop, the messages \<^verbatim>\<open>ListAndWatch\<close> sends after its
  first one are, in order, one per operational state the loop observed for its
  bridge: the initial lookup (an absent link when it reports that the link is not
  found) and every link update that carries the name of the bridge, read by the
  operational state it carries. Each message gives every slot the health of that
  observation, which is \<^verbatim>\<open>Healthy\<close> exactly when the state is \<^verbatim>\<open>OperUp\<close> and
  \<^verbatim>\<open>Unhealthy\<close> when the link is absent or in any other state.
\<close>

theorem health_follows_operstate:
  "fst (ListAndWatch dpi cs (map RecvHealth (fst (healthCheck dpi env evs)))) =
     \<lparr>Devices = devs dpi\<rparr> #
     map (\<lambda>st. \<lparr>Devices = map (\<lambda>dev. dev\<lparr>Health := spec_health st\<rparr>) (devs dpi)\<rparr>)
       (spec_observed dpi env evs)
   \<and> (spec_health st = Healthy) = (st = Some OperUp)
   \<and> (spec_health st = Unhealthy) = (st \<noteq> Some OperUp)"
proof -
  obtain dpi' where
    "ListAndWatch_loop dpi (map RecvHealth (fst (healthCheck dpi env evs))) =
      (map (\<lambda>h. \<lparr>Devices = map (\<lambda>dev. dev\<lparr>Health := dh_Health h\<rparr>) (devs dpi)\<rparr>)
         (fst (healthCheck dpi env evs)), dpi', False)"
    using ListAndWatch_loop_health by blast
  then have "fst (ListAndWatch dpi cs (map RecvHealth (fst (healthCheck dpi env evs)))) =
      \<lparr>Devices = devs dpi\<rparr> #
      map (\<lambda>h. \<lparr>Devices = map (\<lambda>dev. dev\<lparr>Health := dh_Health h\<rparr>) (devs dpi)\<rparr>)
         (fst (healthCheck dpi env evs))"
    by (simp add: ListAndWatch_def Let_def)
  then show ?thesis
    using Healthy_neq_Unhealthy
    by (simp add: healthCheck_observed comp_def spec_health_def)
qed

theorem health_follows_operstate_witness:
  "map (map Health \<circ> Devices)
     (fst (ListAndWatch (example_plugin ''br0'') [False, False, False]
        (map RecvHealth (fst (healthCheck (example_plugin ''br0'')
           \<lparr>NewHandle_err = None, LinkSubscribe_err = None, NewWatcher_err = None,
            watcher_Add_err = None, Stat_err = None,
            LinkByName = LinkFound \<lparr>LinkType = Bridge, Attrs = \<lparr>Name = ''br0'', OperState = OperUp\<rparr>\<rparr>\<rparr>
           [Update \<lparr>Header_Type = RTM_NEWLINK,
                    upd_Link = \<lparr>LinkType = Bridge, Attrs = \<lparr>Name = ''br0'', OperState = OperDown\<rparr>\<rparr>\<rparr>,
            Update \<lparr>Header_Type = RTM_NEWLINK,
                    upd_Link = \<lparr>LinkType = Bridge, Attrs = \<lparr>Name = ''br1'', OperState = OperUp\<rparr>\<rparr>\<rparr>,
            WatcherError ''overflow'',
            Update \<lparr>Header_Type = RTM_NEWLINK,
                    upd_Link = \<lparr>LinkType = Bridge, Attrs = \<lparr>Name = ''br0'', OperState = OperUp\<rparr>\<rparr>\<rparr>,
            StopSignal])))))
   = [[''Healthy'', ''Healthy''], [''Healthy'', ''Healthy''], [''Unhealthy'', ''Unhealthy''],
      [''Healthy'', ''Healthy'']]"
  using health_follows_operstate [of "example_plugin ''br0''" "[False, False, False]"
      "\<lparr>NewHandle_err = None, LinkSubscribe_err = None, NewWatcher_err = None,
            watcher_Add_err = None, Stat_err = None,
            LinkByName = LinkFound \<lparr>LinkType = Bridge, Attrs = \<lparr>Name = ''br0'', OperState = OperUp\<rparr>\<rparr>\<rparr>"
      "[Update \<lparr>Header_Type = RTM_NEWLINK,
                    upd_Link = \<lparr>LinkType = Bridge, Attrs = \<lparr>Name = ''br0'', OperState = OperDown\<rparr>\<rparr>\<rparr>,
            Update \<lparr>Header_Type = RTM_NEWLINK,
                    upd_Link = \<lparr>LinkType = Bridge, Attrs = \<lparr>Name = ''br1'', OperState = OperUp\<rparr>\<rparr>\<rparr>,
            WatcherError ''overflow'',
            Update \<lparr>Header_Type = RTM_NEWLINK,
                    upd_Link = \<lparr>LinkType = Bridge, Attrs = \<lparr>Name = ''br0'', OperState = OperUp\<rparr>\<rparr>\<rparr>,
            StopSignal]"]
  by (simp add: example_plugin_def NewBridgeDevicePlugin_eq spec_observed_def spec_health_def
      Healthy_def Unhealthy_def upto_rec1)

section \<open>Properties of the restart loop\<close>

text \<open>
  A run of failed starts from retry index \<open>r\<close>, with \<^verbatim>\<open>stop\<close> open: the \<open>j\<close>-th of them
  is followed by a wait of \<^verbatim>\<open>backoff[min(r + j, len(backoff) - 1)]\<close>.
\<close>

lemma restart_loop_failures:
  assumes "bo \<noteq> []" and "0 \<le> r" and "r \<le> int (length bo) - 1"
    and "\<forall>f \<in> set fails. fst f \<noteq> None \<and> \<not> snd f"
  shows "restart_loop bo r (fails @ rest) =
     (concat (map (\<lambda>j. [CallStart,
                WaitBackoff (bo ! nat (min (r + int j) (int (length bo) - 1)))])
          [1..<Suc (length fails)])
        @ fst (restart_loop bo (min (r + int (length fails)) (int (length bo) - 1)) rest),
      snd (restart_loop bo (min (r + int (length fails)) (int (length bo) - 1)) rest))"
  using assms
proof (induction fails arbitrary: r)
  case Nil
  then show ?case by simp
next
  case (Cons f fails)
  obtain err stopped where f: "f = (err, stopped)" by (cases f)
  with Cons.prems have err: "err \<noteq> None" and ns: "\<not> stopped" by auto
  let ?r' = "min (r + 1) (int (length bo) - 1)"
  have r': "0 \<le> ?r'" "?r' \<le> int (length bo) - 1"
    using Cons.prems by auto
  have ih: "restart_loop bo ?r' (fails @ rest) =
     (concat (map (\<lambda>j. [CallStart,
                WaitBackoff (bo ! nat (min (?r' + int j) (int (length bo) - 1)))])
          [1..<Suc (length fails)])
        @ fst (restart_loop bo (min (?r' + int (length fails)) (int (length bo) - 1)) rest),
      snd (restart_loop bo (min (?r' + int (length fails)) (int (length bo) - 1)) rest))"
    using Cons.IH [OF Cons.prems(1) r'] Cons.prems(4) by simp
  have m1: "min (?r' + int j) (int (length bo) - 1) = min (r + int (Suc j)) (int (length bo) - 1)" for j
    by auto
  have upt: "[1..<Suc (length (f # fails))] = 1 # map Suc [1..<Suc (length fails)]"
    by (simp add: map_Suc_upt upt_conv_Cons del: upt_Suc)
  have cond: "\<not> (?r' < 0 \<or> int (length bo) \<le> ?r')"
    using r' by linarith
  have step: "restart_loop bo r (f # fails @ rest) =
      (CallStart # WaitBackoff (bo ! nat ?r') # fst (restart_loop bo ?r' (fails @ rest)),
       snd (restart_loop bo ?r' (fails @ rest)))"
    unfolding f restart_loop.simps Let_def
    using err ns cond by (simp add: next_retries_def split: prod.splits)
  have first: "min (r + int 1) (int (length bo) - 1) = ?r'"
    by simp
  show ?case
    unfolding upt
    by (simp add: step ih m1 comp_def first del: upt_Suc)
qed

lemma min_int_pred: "0 < n \<Longrightarrow> min (int j) (int n - 1) = int (min j (n - 1))"
  by (cases n) (auto simp: min_def)

text \<open>
  With an empty schedule, which the controller never passes, the first round panics
  on the index.
\<close>

lemma restart_loop_empty_backoff:
  "restart_loop [] r (round # rounds) = ([CallStart], Panicked IndexOutOfRange)"
  by (cases round) (auto simp: next_retries_def Let_def)

text \<open>
  C1, as the code has it: with a non-empty backoff schedule and \<^verbatim>\<open>stop\<close> open, the
  \<open>k\<close>-th consecutive failed call of \<^verbatim>\<open>plugin.Start\<close> (\<open>k \<ge> 1\<close>, counted from the start
  of the loop or from the last call that returned nil) is followed by a wait of
  \<^verbatim>\<open>backoff[min(k, len(backoff) - 1)]\<close> before the next call; a call that returns nil
  resets the retry index to 0 and is followed by a wait of \<^verbatim>\<open>backoff[0]\<close>.
\<close>

theorem restart_loop_backoff:
  assumes "bo \<noteq> []" and "1 \<le> k" and "length fails = k"
    and "\<forall>f \<in> set fails. fst f \<noteq> None \<and> \<not> snd f"
  shows "restart_loop bo 0 (fails @ rest) =
       (concat (map (\<lambda>j. [CallStart, WaitBackoff (bo ! min j (length bo - 1))]) [1..<Suc k])
          @ fst (restart_loop bo (int (min k (length bo - 1))) rest),
        snd (restart_loop bo (int (min k (length bo - 1))) rest))
     \<and> restart_loop bo r ((None, False) # rest) =
       ([CallStart, WaitBackoff (bo ! 0)] @ fst (restart_loop bo 0 rest),
        snd (restart_loop bo 0 rest))"
proof
  have len: "0 < length bo" using assms(1) by simp
  have idx: "nat (min (0 + int j) (int (length bo) - 1)) = min j (length bo - 1)" for j
    using min_int_pred [OF len, of j] by simp
  have fin: "min (0 + int (length fails)) (int (length bo) - 1) = int (min k (length bo - 1))"
    using min_int_pred [OF len, of k] assms(3) by simp
  have "(0::int) \<le> int (length bo) - 1" using len by simp
  from restart_loop_failures [OF assms(1) _ this assms(4), of rest]
  show "restart_loop bo 0 (fails @ rest) =
       (concat (map (\<lambda>j. [CallStart, WaitBackoff (bo ! min j (length bo - 1))]) [1..<Suc k])
          @ fst (restart_loop bo (int (min k (length bo - 1))) rest),
        snd (restart_loop bo (int (min k (length bo - 1))) rest))"
    unfolding idx fin using assms(3) by simp
next
  show "restart_loop bo r ((None, False) # rest) =
       ([CallStart, WaitBackoff (bo ! 0)] @ fst (restart_loop bo 0 rest),
        snd (restart_loop bo 0 rest))"
    using assms(1) by (simp add: next_retries_def Let_def split: prod.splits)
qed

theorem restart_loop_backoff_witness:
  "restart_loop defaultBackoffTime 0 (replicate 5 (Some ''start failed'', False)) =
     ([CallStart, WaitBackoff (2 * Second), CallStart, WaitBackoff (5 * Second),
       CallStart, WaitBackoff (10 * Second), CallStart, WaitBackoff (10 * Second),
       CallStart, WaitBackoff (10 * Second)], Blocked)
   \<and> restart_loop defaultBackoffTime 3 [(None, False)] =
     ([CallStart, WaitBackoff (1 * Second)], Blocked)"
  using restart_loop_backoff [of defaultBackoffTime 5 "replicate 5 (Some ''start failed'', False)" "[]" 3]
  by (simp add: defaultBackoffTime_def Second_def upt_conv_Cons del: upt_Suc)

text \<open>
  C1 as stated fails at \<open>k = 1\<close> with the default schedule: the index is incremented
  before the wait, so the first failed start waits \<^verbatim>\<open>backoff[1]\<close>, two seconds, not
  \<^verbatim>\<open>backoff[0]\<close>.
\<close>

theorem restart_loop_first_failure_counterexample:
  "restart_loop defaultBackoffTime 0 [(Some ''start failed'', False)] =
     ([CallStart, WaitBackoff (2 * Second)], Blocked)
   \<and> defaultBackoffTime ! min (1 - 1) (length defaultBackoffTime - 1) = 1 * Second
   \<and> fst (restart_loop defaultBackoffTime 0 [(Some ''start failed'', False)]) \<noteq>
     [CallStart, WaitBackoff (defaultBackoffTime ! min (1 - 1) (length defaultBackoffTime - 1))]"
  by (simp add: defaultBackoffTime_def Second_def next_retries_def)

section \<open>Properties of stopping a plugin\<close>

lemma stopDevicePlugin_body_trace:
  assumes "server dpi = Some srv"
  shows "\<exists>t err n'. 0 \<le> t \<and> t \<le> 1 * Second
     \<and> stopDevicePlugin_body dereg dpi n =
         (Returned err, dpi\<lparr>server := Some Stopped, initialized := False\<rparr>, n')
     \<and> trace n' = trace n @ [ActWait t, ActServerStop, ActSetInitialized False,
                               ActRemove (socketPath dpi)]
     \<and> length (chs n') = length (chs n)
     \<and> (\<forall>d. deregistered dpi \<noteq> Some d \<longrightarrow> chs n' ! d = chs n ! d)
     \<and> (err = None \<longrightarrow> socketPath dpi \<notin> set (files n'))"
  using assms
  by (auto simp: stopDevicePlugin_body_def Let_def cleanup_def os_Remove_def setInitialized_def
      Second_def ErrNotExist_def ErrPermission_def split: option.splits prod.splits)

text \<open>
  C2, as the code has it: on a plugin whose server exists and whose \<^verbatim>\<open>done\<close> channel is
  made (and is not the \<^verbatim>\<open>deregistered\<close> channel), \<^verbatim>\<open>stopDevicePlugin\<close> returns, and
  its steps are, in this order: wait at most one second for \<^verbatim>\<open>deregistered\<close> to close,
  stop the gRPC server, set \<^verbatim>\<open>initialized\<close> to false, remove the socket file, stop
  the ticker, and last close \<^verbatim>\<open>done\<close> if it is not closed yet. Afterwards \<^verbatim>\<open>done\<close> is
  closed, \<^verbatim>\<open>initialized\<close> is false, the server is stopped, and the socket file is
  gone unless its removal failed.
\<close>

theorem stopDevicePlugin_order:
  assumes "server dpi = Some srv" and "done_ch dpi = Some d" and "d < length (chs n)"
    and "deregistered dpi \<noteq> Some d"
  shows "\<exists>t err dpi' n'.
       stopDevicePlugin dereg dpi n = (Returned err, dpi', n')
     \<and> 0 \<le> t \<and> t \<le> 1 * Second
     \<and> trace n' = trace n @ [ActWait t, ActServerStop, ActSetInitialized False,
                               ActRemove (socketPath dpi), ActTickerStop]
                     @ (if chs n ! d then [] else [ActClose (Some d)])
     \<and> chs n' ! d \<and> \<not> initialized dpi' \<and> server dpi' = Some Stopped
     \<and> (err = None \<longrightarrow> socketPath dpi \<notin> set (files n'))"
proof -
  obtain t err n1 where t: "0 \<le> t" "t \<le> 1 * Second"
    and body: "stopDevicePlugin_body dereg dpi n =
         (Returned err, dpi\<lparr>server := Some Stopped, initialized := False\<rparr>, n1)"
    and tr: "trace n1 = trace n @ [ActWait t, ActServerStop, ActSetInitialized False,
                               ActRemove (socketPath dpi)]"
    and len: "length (chs n1) = length (chs n)"
    and same: "\<forall>d. deregistered dpi \<noteq> Some d \<longrightarrow> chs n1 ! d = chs n ! d"
    and rm: "err = None \<longrightarrow> socketPath dpi \<notin> set (files n1)"
    using stopDevicePlugin_body_trace [OF assms(1), of dereg n] by blast
  have d1: "chs n1 ! d = chs n ! d"
    using same assms(4) by simp
  show ?thesis
  proof (cases "chs n ! d")
    case True
    then show ?thesis
      using t tr len d1 rm assms(2,3)
      by (simp add: stopDevicePlugin_def body Let_def IsChanClosed_def)
  next
    case False
    then show ?thesis
      using t tr len d1 rm assms(2,3)
      by (simp add: stopDevicePlugin_def body Let_def IsChanClosed_def close_chan_def)
  qed
qed

theorem stopDevicePlugin_order_witness:
  "stopDevicePlugin None (example_plugin ''br0'') (example_node ''br0'')
   = (Returned None,
      (example_plugin ''br0'')\<lparr>server := Some Stopped, initialized := False\<rparr>,
      \<lparr>chs = [False, True, False], files = [], undeletable = [],
       trace = [ActWait (1 * Second), ActServerStop, ActSetInitialized False,
                ActRemove (SocketPath ''br0''), ActTickerStop, ActClose (Some 1)]\<rparr>)"
  using stopDevicePlugin_order [of "example_plugin ''br0''" Serving 1 "example_node ''br0''" None]
  by (simp add: example_plugin_def example_node_def NewBridgeDevicePlugin_eq
      stopDevicePlugin_def stopDevicePlugin_body_def Let_def cleanup_def
      os_Remove_def setInitialized_def IsChanClosed_def close_chan_def ErrNotExist_def)

text \<open>
  C2 as stated fails: with \<^verbatim>\<open>stop\<close> closed, \<^verbatim>\<open>done\<close> open and the handler closing
  \<^verbatim>\<open>deregistered\<close> after half a second, the first step is the wait and the closing of
  \<^verbatim>\<open>done\<close> is the last one, after the socket file is removed.
\<close>

theorem stopDevicePlugin_done_first_counterexample:
  "trace (snd (snd (stopDevicePlugin (Some (Second div 2)) (example_plugin ''br1'')
      \<lparr>chs = [True, False, False], files = [SocketPath ''br1''], undeletable = [],
       trace = []\<rparr>)))
   = [ActWait (Second div 2), ActServerStop, ActSetInitialized False,
      ActRemove (SocketPath ''br1''), ActTickerStop, ActClose (Some 1)]"
  by (simp add: example_plugin_def NewBridgeDevicePlugin_eq
      stopDevicePlugin_def stopDevicePlugin_body_def Let_def cleanup_def
      os_Remove_def setInitialized_def IsChanClosed_def close_chan_def ErrNotExist_def Second_def)

section \<open>Properties of the supervised-start wrapper\<close>

text \<open>
  C7: a second \<^verbatim>\<open>Start\<close> changes nothing, a \<^verbatim>\<open>Start\<close> on a started wrapper is a no-op,
  and two calls on a wrapper that is not started add exactly one restart loop. A
  \<^verbatim>\<open>Stop\<close> on a wrapper that is not started is a no-op; after a \<^verbatim>\<open>Stop\<close> that returned,
  the wrapper is not started and a second \<^verbatim>\<open>Stop\<close> changes nothing; and \<^verbatim>\<open>Stop\<close> after
  \<^verbatim>\<open>Start\<close> returns with the stop channel closed, so that \<^verbatim>\<open>Stop\<close> can be called twice.
\<close>

theorem controlledDevice_idempotent:
  "controlledDevice_Start (fst (controlledDevice_Start c w)) (snd (controlledDevice_Start c w))
     = controlledDevice_Start c w
   \<and> (started c \<longrightarrow> controlledDevice_Start c w = (c, w))
   \<and> (\<not> started c \<longrightarrow>
        restartLoops (snd (controlledDevice_Start (fst (controlledDevice_Start c w))
                              (snd (controlledDevice_Start c w))))
        = restartLoops w @ [(length (w_chans w), devicePlugin c,
                             case backoff c of None \<Rightarrow> defaultBackoffTime | Some b \<Rightarrow> b)])
   \<and> (\<not> started c \<longrightarrow> controlledDevice_Stop c w = Inr (c, w))
   \<and> (\<forall>c' w'. controlledDevice_Stop c w = Inr (c', w')
         \<longrightarrow> \<not> started c' \<and> controlledDevice_Stop c' w' = Inr (c', w'))
   \<and> (\<not> started c \<longrightarrow>
        (\<exists>c' w'. controlledDevice_Stop (fst (controlledDevice_Start c w))
                      (snd (controlledDevice_Start c w)) = Inr (c', w')
                 \<and> IsChanClosed (w_chans w') (Some (length (w_chans w)))
                 \<and> controlledDevice_Stop c' w' = Inr (c', w')))"
  by (auto simp: controlledDevice_Start_def controlledDevice_Stop_def make_chan_def Let_def
      close_chan_def IsChanClosed_def nth_append split: sum.splits option.splits if_splits)

theorem controlledDevice_idempotent_witness:
  "controlledDevice_Start
      \<lparr>devicePlugin = 0, started = False, stopChan = None, backoff = None\<rparr> example_world
    = (\<lparr>devicePlugin = 0, started = True, stopChan = Some 0, backoff = None\<rparr>,
       example_world\<lparr>w_chans := [False], restartLoops := [(0, 0, defaultBackoffTime)]\<rparr>)
   \<and> controlledDevice_Start
      \<lparr>devicePlugin = 0, started = True, stopChan = Some 0, backoff = None\<rparr>
      (example_world\<lparr>w_chans := [False], restartLoops := [(0, 0, defaultBackoffTime)]\<rparr>)
    = (\<lparr>devicePlugin = 0, started = True, stopChan = Some 0, backoff = None\<rparr>,
       example_world\<lparr>w_chans := [False], restartLoops := [(0, 0, defaultBackoffTime)]\<rparr>)
   \<and> controlledDevice_Stop
      \<lparr>devicePlugin = 0, started = True, stopChan = Some 0, backoff = None\<rparr>
      (example_world\<lparr>w_chans := [False], restartLoops := [(0, 0, defaultBackoffTime)]\<rparr>)
    = Inr (\<lparr>devicePlugin = 0, started = False, stopChan = None, backoff = None\<rparr>,
       example_world\<lparr>w_chans := [True], restartLoops := [(0, 0, defaultBackoffTime)]\<rparr>)
   \<and> controlledDevice_Stop
      \<lparr>devicePlugin = 0, started = False, stopChan = None, backoff = None\<rparr>
      (example_world\<lparr>w_chans := [True], restartLoops := [(0, 0, defaultBackoffTime)]\<rparr>)
    = Inr (\<lparr>devicePlugin = 0, started = False, stopChan = None, backoff = None\<rparr>,
       example_world\<lparr>w_chans := [True], restartLoops := [(0, 0, defaultBackoffTime)]\<rparr>)"
  using controlledDevice_idempotent
    [of "\<lparr>devicePlugin = 0, started = False, stopChan = None, backoff = None\<rparr>" example_world]
  by (simp add: controlledDevice_Start_def controlledDevice_Stop_def make_chan_def Let_def
      close_chan_def example_world_def)

section \<open>Properties of the supervisor\<close>

lemma Initialized_loop_all:
  "Initialized_loop w sp = (\<forall>(name, dev) \<in> set sp. GetInitialized (heap w (devicePlugin dev)))"
  by (induction sp) (auto split: if_splits)

text \<open>
  C8: \<^verbatim>\<open>Initialized\<close> returns true exactly when the plugin of every wrapper in the
  running map reports \<^verbatim>\<open>GetInitialized() == true\<close>; with an empty running map it
  returns true.
\<close>

theorem Initialized_iff_all:
  "Initialized c w =
     (\<forall>(name, dev) \<in> set (startedPlugins c). GetInitialized (heap w (devicePlugin dev)))
   \<and> (startedPlugins c = [] \<longrightarrow> Initialized c w)"
  by (simp add: Initialized_def Initialized_loop_all)


theorem Initialized_iff_all_witness:
  "Initialized
      \<lparr>permanentPlugins = [],
       startedPlugins =
         [(''br0'', \<lparr>devicePlugin = 0, started = True, stopChan = Some 0, backoff = None\<rparr>)],
       maxDevices = 2, ctl_backoff = None\<rparr>
      (example_world\<lparr>heap := \<lambda>d. (example_heap d)\<lparr>initialized := (d = 0)\<rparr>\<rparr>)
   \<and> \<not> Initialized
      \<lparr>permanentPlugins = [],
       startedPlugins =
         [(''br0'', \<lparr>devicePlugin = 0, started = True, stopChan = Some 0, backoff = None\<rparr>),
          (''br1'', \<lparr>devicePlugin = 1, started = True, stopChan = Some 1, backoff = None\<rparr>)],
       maxDevices = 2, ctl_backoff = None\<rparr>
      (example_world\<lparr>heap := \<lambda>d. (example_heap d)\<lparr>initialized := (d = 0)\<rparr>\<rparr>)
   \<and> Initialized
      \<lparr>permanentPlugins = [], startedPlugins = [], maxDevices = 2, ctl_backoff = None\<rparr>
      example_world"
  using Initialized_iff_all
    [of "\<lparr>permanentPlugins = [],
         startedPlugins =
           [(''br0'', \<lparr>devicePlugin = 0, started = True, stopChan = Some 0, backoff = None\<rparr>)],
         maxDevices = 2, ctl_backoff = None\<rparr>"
        "example_world\<lparr>heap := \<lambda>d. (example_heap d)\<lparr>initialized := (d = 0)\<rparr>\<rparr>"]
    Initialized_iff_all
    [of "\<lparr>permanentPlugins = [],
         startedPlugins =
           [(''br0'', \<lparr>devicePlugin = 0, started = True, stopChan = Some 0, backoff = None\<rparr>),
            (''br1'', \<lparr>devicePlugin = 1, started = True, stopChan = Some 1, backoff = None\<rparr>)],
         maxDevices = 2, ctl_backoff = None\<rparr>"
        "example_world\<lparr>heap := \<lambda>d. (example_heap d)\<lparr>initialized := (d = 0)\<rparr>\<rparr>"]
    Initialized_iff_all
    [of "\<lparr>permanentPlugins = [], startedPlugins = [], maxDevices = 2, ctl_backoff = None\<rparr>"
        example_world]
  by (simp add: GetInitialized_def example_world_def)

subsection \<open>The invariant of the running map\<close>

lemma live_loops_mem:
  "(ch, dev, b) \<in> set (live_loops w) \<longleftrightarrow>
     (ch, dev, b) \<in> set (restartLoops w) \<and> \<not> (ch < length (w_chans w) \<and> w_chans w ! ch)"
  by (simp add: live_loops_def IsChanClosed_def)

lemma proj_mem:
  "(ch, dev) \<in> (\<lambda>(ch, dev, b). (ch, dev)) ` S \<longleftrightarrow> (\<exists>b. (ch, dev, b) \<in> S)"
  by force

lemma running_inv_iff:
  "running_inv c w \<longleftrightarrow>
     distinct (map fst (startedPlugins c))
     \<and> distinct (map fst (restartLoops w))
     \<and> (\<forall>ch dev b. (ch, dev, b) \<in> set (restartLoops w) \<longrightarrow> ch < length (w_chans w))
     \<and> (\<forall>name cd. (name, cd) \<in> set (startedPlugins c) \<longrightarrow> wrapper_ok w name cd)
     \<and> (\<forall>ch dev b. (ch, dev, b) \<in> set (restartLoops w) \<longrightarrow> \<not> w_chans w ! ch \<longrightarrow>
           loop_ok c w ch dev)"
proof (cases "\<forall>ch dev b. (ch, dev, b) \<in> set (restartLoops w) \<longrightarrow> ch < length (w_chans w)")
  case bound: True
  have live: "(ch, dev, b) \<in> set (live_loops w) \<longleftrightarrow>
      (ch, dev, b) \<in> set (restartLoops w) \<and> \<not> w_chans w ! ch" for ch dev b
    using bound by (auto simp: live_loops_mem)
  have w4: "(started cd \<and> name = GetDeviceName (heap w (devicePlugin cd))
            \<and> (case stopChan cd of
                   None \<Rightarrow> False
                 | Some ch \<Rightarrow>
                     (ch, devicePlugin cd) \<in> set (map (\<lambda>(ch, dev, b). (ch, dev)) (live_loops w))))
        \<longleftrightarrow> wrapper_ok w name cd" for name cd
    by (cases "stopChan cd") (auto simp: wrapper_ok_def proj_mem live)
  have w5: "(case map_of (startedPlugins c) (GetDeviceName (heap w dev)) of
               None \<Rightarrow> False
             | Some cd \<Rightarrow> stopChan cd = Some ch \<and> devicePlugin cd = dev)
        \<longleftrightarrow> loop_ok c w ch dev" for ch dev
    by (cases "map_of (startedPlugins c) (GetDeviceName (heap w dev))") (auto simp: loop_ok_def)
  have b3: "(\<forall>(ch, dev, b) \<in> set (restartLoops w). ch < length (w_chans w))"
    using bound by auto
  have i4: "(\<forall>(name, cd) \<in> set (startedPlugins c).
            started cd \<and> name = GetDeviceName (heap w (devicePlugin cd))
            \<and> (case stopChan cd of
                   None \<Rightarrow> False
                 | Some ch \<Rightarrow>
                     (ch, devicePlugin cd) \<in> set (map (\<lambda>(ch, dev, b). (ch, dev)) (live_loops w))))
      \<longleftrightarrow> (\<forall>name cd. (name, cd) \<in> set (startedPlugins c) \<longrightarrow> wrapper_ok w name cd)"
    unfolding w4 by auto
  have i5: "(\<forall>(ch, dev, b) \<in> set (live_loops w).
            (case map_of (startedPlugins c) (GetDeviceName (heap w dev)) of
               None \<Rightarrow> False
             | Some cd \<Rightarrow> stopChan cd = Some ch \<and> devicePlugin cd = dev))
      \<longleftrightarrow> (\<forall>ch dev b. (ch, dev, b) \<in> set (restartLoops w) \<longrightarrow> \<not> w_chans w ! ch \<longrightarrow>
           loop_ok c w ch dev)"
    unfolding w5
  proof
    assume a: "\<forall>(ch, dev, b) \<in> set (live_loops w). loop_ok c w ch dev"
    show "\<forall>ch dev b. (ch, dev, b) \<in> set (restartLoops w) \<longrightarrow> \<not> w_chans w ! ch \<longrightarrow>
           loop_ok c w ch dev"
    proof (intro allI impI)
      fix ch dev b
      assume "(ch, dev, b) \<in> set (restartLoops w)" and "\<not> w_chans w ! ch"
      then have "(ch, dev, b) \<in> set (live_loops w)"
        by (simp add: live)
      with a show "loop_ok c w ch dev"
        by fastforce
    qed
  next
    assume b: "\<forall>ch dev b. (ch, dev, b) \<in> set (restartLoops w) \<longrightarrow> \<not> w_chans w ! ch \<longrightarrow>
           loop_ok c w ch dev"
    show "\<forall>(ch, dev, b) \<in> set (live_loops w). loop_ok c w ch dev"
    proof (clarify)
      fix ch dev b
      assume "(ch, dev, b) \<in> set (live_loops w)"
      then have "(ch, dev, b) \<in> set (restartLoops w)" and "\<not> w_chans w ! ch"
        by (simp_all add: live)
      with b show "loop_ok c w ch dev"
        by blast
    qed
  qed
  show ?thesis
    unfolding running_inv_def i4 i5 using b3 bound by blast
next
  case False
  then have "\<not> (\<forall>(ch, dev, b) \<in> set (restartLoops w). ch < length (w_chans w))"
    by auto
  with False show ?thesis
    unfolding running_inv_def by blast
qed


lemma running_invI:
  assumes "distinct (map fst (startedPlugins c))"
    and "distinct (map fst (restartLoops w))"
    and "\<And>ch dev b. (ch, dev, b) \<in> set (restartLoops w) \<Longrightarrow> ch < length (w_chans w)"
    and "\<And>name cd. (name, cd) \<in> set (startedPlugins c) \<Longrightarrow> wrapper_ok w name cd"
    and "\<And>ch dev b. (ch, dev, b) \<in> set (restartLoops w) \<Longrightarrow> \<not> w_chans w ! ch \<Longrightarrow>
           loop_ok c w ch dev"
  shows "running_inv c w"
  unfolding running_inv_iff using assms by blast

lemma running_invD:
  assumes "running_inv c w"
  shows "distinct (map fst (startedPlugins c))"
    and "distinct (map fst (restartLoops w))"
    and "\<And>ch dev b. (ch, dev, b) \<in> set (restartLoops w) \<Longrightarrow> ch < length (w_chans w)"
    and "\<And>name cd. (name, cd) \<in> set (startedPlugins c) \<Longrightarrow> wrapper_ok w name cd"
    and "\<And>ch dev b. (ch, dev, b) \<in> set (restartLoops w) \<Longrightarrow> \<not> w_chans w ! ch \<Longrightarrow>
           loop_ok c w ch dev"
  using assms unfolding running_inv_iff by blast+

lemma set_delete_conv: "set (AList.delete k al) = {p \<in> set al. fst p \<noteq> k}"
  by (auto simp: AList.delete_eq)

lemma stopDevice_inv:
  assumes inv: "running_inv c w"
  shows "\<exists>c' w'. stopDevice c w name = Inr (c', w') \<and> running_inv c' w'
      \<and> heap w' = heap w \<and> restartLoops w' = restartLoops w
      \<and> length (w_chans w') = length (w_chans w)
      \<and> permanentPlugins c' = permanentPlugins c \<and> ctl_backoff c' = ctl_backoff c
      \<and> maxDevices c' = maxDevices c
      \<and> startedPlugins c' = AList.delete name (startedPlugins c)
      \<and> (\<forall>old. map_of (startedPlugins c) name = Some old
            \<longrightarrow> IsChanClosed (w_chans w') (stopChan old))"
proof (cases "map_of (startedPlugins c) name")
  case None
  then have "name \<notin> fst ` set (startedPlugins c)"
    by (simp add: map_of_eq_None_iff)
  then have "AList.delete name (startedPlugins c) = startedPlugins c"
    by simp
  with None inv show ?thesis
    by (simp add: stopDevice_def)
next
  case (Some cd)
  note d = running_invD [OF inv]
  have mem: "(name, cd) \<in> set (startedPlugins c)"
    using Some by (rule map_of_SomeD)
  from d(4) [OF mem] obtain ch b where
    st: "started cd" and nm: "name = GetDeviceName (heap w (devicePlugin cd))"
    and sc: "stopChan cd = Some ch" and lp: "(ch, devicePlugin cd, b) \<in> set (restartLoops w)"
    and op: "\<not> w_chans w ! ch"
    unfolding wrapper_ok_def by blast
  have lt: "ch < length (w_chans w)"
    using d(3) [OF lp] .
  define w' where "w' = w\<lparr>w_chans := (w_chans w)[ch := True]\<rparr>"
  define c' where "c' = c\<lparr>startedPlugins := AList.delete name (startedPlugins c)\<rparr>"
  have stop: "controlledDevice_Stop cd w = Inr (cd\<lparr>stopChan := None, started := False\<rparr>, w')"
    using st sc lt op by (simp add: controlledDevice_Stop_def close_chan_def w'_def)
  have res: "stopDevice c w name = Inr (c', w')"
    using Some stop by (simp add: stopDevice_def c'_def)
  have inv': "running_inv c' w'"
  proof (rule running_invI)
    show "distinct (map fst (startedPlugins c'))"
      using d(1) by (simp add: c'_def distinct_delete)
    show "distinct (map fst (restartLoops w'))"
      using d(2) by (simp add: w'_def)
    show "ch' < length (w_chans w')" if "(ch', dev', b') \<in> set (restartLoops w')" for ch' dev' b'
      using that d(3) [of ch' dev' b'] by (simp add: w'_def)
    show "wrapper_ok w' name' cd'" if "(name', cd') \<in> set (startedPlugins c')" for name' cd'
    proof -
      from that have neq: "name' \<noteq> name" and mem': "(name', cd') \<in> set (startedPlugins c)"
        by (simp_all add: c'_def set_delete_conv)
      from d(4) [OF mem'] obtain ch' b' where
        st': "started cd'" and nm': "name' = GetDeviceName (heap w (devicePlugin cd'))"
        and sc': "stopChan cd' = Some ch'"
        and lp': "(ch', devicePlugin cd', b') \<in> set (restartLoops w)"
        and op': "\<not> w_chans w ! ch'"
        unfolding wrapper_ok_def by blast
      have "ch' \<noteq> ch"
      proof
        assume "ch' = ch"
        with lp' have "(ch, devicePlugin cd', b') \<in> set (restartLoops w)" by simp
        from eq_key_imp_eq_value [OF d(2) this lp] have "devicePlugin cd' = devicePlugin cd"
          by simp
        with nm nm' neq show False by simp
      qed
      then have "\<not> w_chans w' ! ch'"
        using op' by (simp add: w'_def)
      with st' nm' sc' lp' show ?thesis
        unfolding wrapper_ok_def by (auto simp: w'_def)
    qed
    show "loop_ok c' w' ch' dev'"
      if "(ch', dev', b') \<in> set (restartLoops w')" and "\<not> w_chans w' ! ch'" for ch' dev' b'
    proof -
      from that(1) have lp': "(ch', dev', b') \<in> set (restartLoops w)"
        by (simp add: w'_def)
      have neq: "ch' \<noteq> ch"
        using that(2) lt by (auto simp: w'_def)
      with that(2) have op': "\<not> w_chans w ! ch'"
        by (simp add: w'_def)
      from d(5) [OF lp' op'] obtain cd' where
        m: "map_of (startedPlugins c) (GetDeviceName (heap w dev')) = Some cd'"
        and sc': "stopChan cd' = Some ch'" and dv': "devicePlugin cd' = dev'"
        unfolding loop_ok_def by blast
      have "GetDeviceName (heap w dev') \<noteq> name"
      proof
        assume "GetDeviceName (heap w dev') = name"
        with m Some have "cd' = cd" by simp
        with sc sc' neq show False by simp
      qed
      then have "map_of (startedPlugins c') (GetDeviceName (heap w' dev')) = Some cd'"
        using m by (simp add: c'_def w'_def)
      with sc' dv' show ?thesis
        unfolding loop_ok_def by blast
    qed
  qed
  have closed: "IsChanClosed (w_chans w') (stopChan cd)"
    using sc lt by (simp add: IsChanClosed_def w'_def)
  show ?thesis
    using res inv' closed Some by (simp add: w'_def c'_def)
qed


lemma set_alist_update_subset: "set (AList.update k v al) \<subseteq> insert (k, v) (set al)"
  by (induction al) auto

lemma IsChanClosed_append: "IsChanClosed cs ch \<Longrightarrow> IsChanClosed (cs @ xs) ch"
  by (auto simp: IsChanClosed_def nth_append split: option.splits)

lemma startDevice_unfold:
  assumes "stopDevice c w name = Inr (c1, w1)"
  shows "startDevice c w name dev =
     Inr (c1\<lparr>startedPlugins :=
              AList.update name
                \<lparr>devicePlugin = dev, started = True, stopChan = Some (length (w_chans w1)),
                 backoff = ctl_backoff c1\<rparr> (startedPlugins c1)\<rparr>,
          w1\<lparr>w_chans := w_chans w1 @ [False],
             restartLoops := restartLoops w1 @
               [(length (w_chans w1), dev,
                 case ctl_backoff c1 of None \<Rightarrow> defaultBackoffTime | Some b \<Rightarrow> b)]\<rparr>)"
  using assms
  by (simp add: startDevice_def controlledDevice_Start_def make_chan_def Let_def)

lemma startDevice_inv:
  assumes inv: "running_inv c w" and nm: "name = GetDeviceName (heap w dev)"
  shows "\<exists>c' w'. startDevice c w name dev = Inr (c', w') \<and> running_inv c' w'
      \<and> heap w' = heap w
      \<and> permanentPlugins c' = permanentPlugins c \<and> ctl_backoff c' = ctl_backoff c
      \<and> maxDevices c' = maxDevices c"
proof -
  from stopDevice_inv [OF inv, of name] obtain c1 w1 where
    sd: "stopDevice c w name = Inr (c1, w1)" and inv1: "running_inv c1 w1"
    and hp: "heap w1 = heap w" and pp: "permanentPlugins c1 = permanentPlugins c"
    and cb: "ctl_backoff c1 = ctl_backoff c" and md: "maxDevices c1 = maxDevices c"
    and sp1: "startedPlugins c1 = AList.delete name (startedPlugins c)"
    by blast
  note d = running_invD [OF inv1]
  define n where "n = length (w_chans w1)"
  define bo where "bo = (case ctl_backoff c1 of None \<Rightarrow> defaultBackoffTime | Some b \<Rightarrow> b)"
  define cd where
    "cd = \<lparr>devicePlugin = dev, started = True, stopChan = Some n, backoff = ctl_backoff c1\<rparr>"
  define c' where "c' = c1\<lparr>startedPlugins := AList.update name cd (startedPlugins c1)\<rparr>"
  define w' where
    "w' = w1\<lparr>w_chans := w_chans w1 @ [False], restartLoops := restartLoops w1 @ [(n, dev, bo)]\<rparr>"
  have res: "startDevice c w name dev = Inr (c', w')"
    using startDevice_unfold [OF sd, of dev] by (simp add: c'_def w'_def cd_def n_def bo_def)
  have notin: "map_of (startedPlugins c1) name = None"
    by (simp add: sp1 delete_conv')
  have inv': "running_inv c' w'"
  proof (rule running_invI)
    show "distinct (map fst (startedPlugins c'))"
      using d(1) by (simp add: c'_def distinct_update)
    have "n \<notin> fst ` set (restartLoops w1)"
      using d(3) by (fastforce simp: n_def)
    then show "distinct (map fst (restartLoops w'))"
      using d(2) by (simp add: w'_def)
    show "ch < length (w_chans w')" if "(ch, dv, b) \<in> set (restartLoops w')" for ch dv b
      using that d(3) [of ch dv b] by (auto simp: w'_def n_def)
    show "wrapper_ok w' name' cd'" if "(name', cd') \<in> set (startedPlugins c')" for name' cd'
    proof -
      from that have "(name', cd') = (name, cd) \<or> (name', cd') \<in> set (startedPlugins c1)"
        using set_alist_update_subset [of name cd "startedPlugins c1"] by (auto simp: c'_def)
      then show ?thesis
      proof
        assume "(name', cd') = (name, cd)"
        then show ?thesis
          unfolding wrapper_ok_def using nm hp
          by (auto simp: cd_def w'_def n_def nth_append)
      next
        assume mem: "(name', cd') \<in> set (startedPlugins c1)"
        from d(4) [OF mem] obtain ch b where
          "started cd'" "name' = GetDeviceName (heap w1 (devicePlugin cd'))"
          "stopChan cd' = Some ch" "(ch, devicePlugin cd', b) \<in> set (restartLoops w1)"
          "\<not> w_chans w1 ! ch"
          unfolding wrapper_ok_def by blast
        moreover from this d(3) have "ch < length (w_chans w1)" by blast
        ultimately show ?thesis
          unfolding wrapper_ok_def by (auto simp: w'_def nth_append)
      qed
    qed
    show "loop_ok c' w' ch dv"
      if "(ch, dv, b) \<in> set (restartLoops w')" and "\<not> w_chans w' ! ch" for ch dv b
    proof -
      from that(1) have "(ch, dv, b) = (n, dev, bo) \<or> (ch, dv, b) \<in> set (restartLoops w1)"
        by (auto simp: w'_def)
      then show ?thesis
      proof
        assume "(ch, dv, b) = (n, dev, bo)"
        then show ?thesis
          unfolding loop_ok_def using nm hp
          by (simp add: c'_def w'_def update_conv' cd_def)
      next
        assume lp: "(ch, dv, b) \<in> set (restartLoops w1)"
        then have lt: "ch < length (w_chans w1)" using d(3) by blast
        with that(2) have "\<not> w_chans w1 ! ch"
          by (simp add: w'_def nth_append)
        from d(5) [OF lp this] obtain cd' where
          m: "map_of (startedPlugins c1) (GetDeviceName (heap w1 dv)) = Some cd'"
          and "stopChan cd' = Some ch" "devicePlugin cd' = dv"
          unfolding loop_ok_def by blast
        moreover from m notin have "GetDeviceName (heap w1 dv) \<noteq> name"
          by auto
        ultimately show ?thesis
          unfolding loop_ok_def by (simp add: c'_def w'_def update_conv')
      qed
    qed
  qed
  show ?thesis
    using res inv' hp pp cb md by (simp add: c'_def w'_def)
qed

lemma startDevice_replaces:
  assumes inv: "running_inv c w"
  shows "\<exists>c' w' new. startDevice c w name dev = Inr (c', w')
      \<and> (\<forall>old. map_of (startedPlugins c) name = Some old
            \<longrightarrow> IsChanClosed (w_chans w') (stopChan old))
      \<and> map_of (startedPlugins c') name = Some new
      \<and> devicePlugin new = dev \<and> started new
      \<and> stopChan new = Some (length (w_chans w))
      \<and> \<not> IsChanClosed (w_chans w') (stopChan new)
      \<and> (length (w_chans w), dev,
           case ctl_backoff c of None \<Rightarrow> defaultBackoffTime | Some b \<Rightarrow> b)
          \<in> set (live_loops w')"
proof -
  from stopDevice_inv [OF inv, of name] obtain c1 w1 where
    sd: "stopDevice c w name = Inr (c1, w1)"
    and len: "length (w_chans w1) = length (w_chans w)"
    and cb: "ctl_backoff c1 = ctl_backoff c"
    and cl: "\<forall>old. map_of (startedPlugins c) name = Some old
            \<longrightarrow> IsChanClosed (w_chans w1) (stopChan old)"
    by blast
  have a: "\<forall>old. map_of (startedPlugins c) name = Some old
            \<longrightarrow> IsChanClosed (w_chans w1 @ [False]) (stopChan old)"
    using cl IsChanClosed_append by blast
  have b: "\<not> IsChanClosed (w_chans w1 @ [False]) (Some (length (w_chans w)))"
    using len by (simp add: IsChanClosed_def nth_append)
  show ?thesis
    using a b len cb
    by (simp add: startDevice_unfold [OF sd] update_conv' live_loops_def)
qed


lemma startPermanentPlugins_loop_inv:
  assumes "running_inv c w"
    and "\<forall>(name, dev) \<in> set ps. name = GetDeviceName (heap w dev)"
  shows "\<exists>c' w'. startPermanentPlugins_loop c w ps = Inr (c', w') \<and> running_inv c' w'
      \<and> heap w' = heap w"
  using assms
proof (induction ps arbitrary: c w)
  case Nil
  then show ?case by simp
next
  case (Cons p ps)
  obtain name dev where p: "p = (name, dev)" by (cases p)
  with Cons.prems have nm: "name = GetDeviceName (heap w dev)" by simp
  from startDevice_inv [OF Cons.prems(1) nm] obtain c1 w1 where
    sd: "startDevice c w name dev = Inr (c1, w1)" and inv1: "running_inv c1 w1"
    and hp: "heap w1 = heap w"
    by blast
  have "\<forall>(name, dev) \<in> set ps. name = GetDeviceName (heap w1 dev)"
    using Cons.prems(2) hp by simp
  from Cons.IH [OF inv1 this] show ?case
    using sd hp by (simp add: p)
qed

lemma permanentPluginsMap_names:
  assumes "\<forall>(name, dev) \<in> set m. name = GetDeviceName (heap w dev)"
  shows "\<forall>(name, dev) \<in> set (permanentPluginsMap w ps m). name = GetDeviceName (heap w dev)"
  using assms
proof (induction ps arbitrary: m)
  case Nil
  then show ?case by simp
next
  case (Cons p ps)
  have "\<forall>(name, dev) \<in> set (AList.update (GetDeviceName (heap w p)) p m).
          name = GetDeviceName (heap w dev)"
    using Cons.prems set_alist_update_subset [of "GetDeviceName (heap w p)" p m] by auto
  from Cons.IH [OF this] show ?case by simp
qed

lemma stopAllPlugins_loop_inv:
  assumes "running_inv c w"
  shows "\<exists>c' w'. stopAllPlugins_loop c w names = Inr (c', w') \<and> running_inv c' w'
      \<and> heap w' = heap w
      \<and> fst ` set (startedPlugins c') = fst ` set (startedPlugins c) - set names"
  using assms
proof (induction names arbitrary: c w)
  case Nil
  then show ?case by simp
next
  case (Cons name names)
  from stopDevice_inv [OF Cons.prems, of name] obtain c1 w1 where
    sd: "stopDevice c w name = Inr (c1, w1)" and inv1: "running_inv c1 w1"
    and hp: "heap w1 = heap w"
    and sp1: "startedPlugins c1 = AList.delete name (startedPlugins c)"
    by blast
  from Cons.IH [OF inv1] obtain c' w' where
    "stopAllPlugins_loop c1 w1 names = Inr (c', w')" "running_inv c' w'" "heap w' = heap w1"
    "fst ` set (startedPlugins c') = fst ` set (startedPlugins c1) - set names"
    by blast
  moreover have "fst ` set (startedPlugins c1) = fst ` set (startedPlugins c) - {name}"
    using sp1 by (auto simp: set_delete_conv)
  ultimately show ?case
    using sd hp by auto
qed

lemma Run_loop_inv:
  assumes "running_inv c w" and "Run_loop c w evs = (r, c', w')"
  shows "running_inv c' w' \<and> heap w' = heap w"
  using assms
proof (induction evs arbitrary: c w)
  case Nil
  then show ?case by simp
next
  case (Cons ev evs)
  show ?case
  proof (cases ev)
    case (RecvNewPlugin device)
    show ?thesis
    proof (cases device)
      case None
      with Cons.prems RecvNewPlugin show ?thesis
        by (simp add: startNewPlugin_def)
    next
      case (Some dev)
      from startDevice_inv [OF Cons.prems(1) refl, of dev] obtain c1 w1 where
        sd: "startDevice c w (GetDeviceName (heap w dev)) dev = Inr (c1, w1)"
        and inv1: "running_inv c1 w1" and hp: "heap w1 = heap w"
        by blast
      with Cons.prems(2) RecvNewPlugin Some have "Run_loop c1 w1 evs = (r, c', w')"
        by (simp add: startNewPlugin_def)
      from Cons.IH [OF inv1 this] hp show ?thesis by simp
    qed
  next
    case RecvStop
    from stopAllPlugins_loop_inv [OF Cons.prems(1), of "map fst (startedPlugins c)"]
    obtain c1 w1 where
      "stopAllPlugins c w = Inr (c1, w1)" "running_inv c1 w1" "heap w1 = heap w"
      unfolding stopAllPlugins_def by blast
    with Cons.prems(2) RecvStop show ?thesis by simp
  qed
qed

lemma Run_inv:
  assumes "restartLoops w0 = []"
    and "Run (NewBridgeDeviceController w0 plugins maxDevs) w0 evs = (r, c, w)"
  shows "running_inv c w \<and> heap w = heap w0"
proof -
  let ?c0 = "NewBridgeDeviceController w0 plugins maxDevs"
  have inv0: "running_inv ?c0 w0"
    using assms(1) by (simp add: running_inv_def NewBridgeDeviceController_def live_loops_def)
  have "\<forall>(name, dev) \<in> set (permanentPlugins ?c0). name = GetDeviceName (heap w0 dev)"
    using permanentPluginsMap_names [of "[]" w0 plugins]
    by (simp add: NewBridgeDeviceController_def)
  from startPermanentPlugins_loop_inv [OF inv0 this] obtain c1 w1 where
    "startPermanentPlugins ?c0 w0 = Inr (c1, w1)" "running_inv c1 w1" "heap w1 = heap w0"
    unfolding startPermanentPlugins_def by blast
  with assms(2) Run_loop_inv [of c1 w1 evs r c w] show ?thesis
    by (simp add: Run_def)
qed

lemma filter_key_le1:
  assumes "distinct (map fst xs)" and "\<forall>x \<in> set xs. P x \<longrightarrow> fst x = k"
  shows "length (filter P xs) \<le> 1"
  using assms
proof (induction xs)
  case Nil
  then show ?case by simp
next
  case (Cons x xs)
  show ?case
  proof (cases "P x")
    case True
    with Cons.prems have k: "fst x = k" and notin: "k \<notin> fst ` set xs" by auto
    have "\<not> P y" if "y \<in> set xs" for y
    proof
      assume "P y"
      with Cons.prems(2) that have "fst y = k" by simp
      with that have "k \<in> fst ` set xs" by force
      with notin show False by simp
    qed
    then have "filter P xs = []"
      by (simp add: filter_empty_conv)
    with True show ?thesis by simp
  next
    case False
    with Cons show ?thesis by simp
  qed
qed

lemma one_wrapper_per_name:
  assumes "running_inv c w"
  shows "length (filter (\<lambda>(name, cd). controlledDevice_GetName cd w = d)
           (startedPlugins c)) \<le> 1"
proof (rule filter_key_le1 [where k = d])
  show "distinct (map fst (startedPlugins c))"
    using running_invD(1) [OF assms] .
  show "\<forall>x \<in> set (startedPlugins c).
          (case x of (name, cd) \<Rightarrow> controlledDevice_GetName cd w = d) \<longrightarrow> fst x = d"
    using running_invD(4) [OF assms]
    unfolding wrapper_ok_def controlledDevice_GetName_def by fastforce
qed

lemma one_live_loop_per_name:
  assumes "running_inv c w"
  shows "length (filter (\<lambda>(ch, dev, b). GetDeviceName (heap w dev) = d) (live_loops w)) \<le> 1"
proof -
  note i = running_invD [OF assms]
  let ?P = "\<lambda>x. \<not> IsChanClosed (w_chans w) (Some (fst x))
               \<and> GetDeviceName (heap w (fst (snd x))) = d"
  have eq: "filter (\<lambda>(ch, dev, b). GetDeviceName (heap w dev) = d) (live_loops w)
      = filter ?P (restartLoops w)"
    by (simp add: live_loops_def case_prod_beta)
  show ?thesis
  proof (cases "map_of (startedPlugins c) d")
    case None
    have "\<not> ?P x" if "x \<in> set (restartLoops w)" for x
    proof
      assume p: "?P x"
      obtain ch dev b where x: "x = (ch, dev, b)" by (cases x)
      with that i(3) have "ch < length (w_chans w)" by blast
      with p x have "\<not> w_chans w ! ch" and "GetDeviceName (heap w dev) = d"
        by (simp_all add: IsChanClosed_def)
      with i(5) [of ch dev b] that x None show False
        unfolding loop_ok_def by simp
    qed
    then have "filter ?P (restartLoops w) = []"
      by (simp add: filter_empty_conv)
    with eq show ?thesis by simp
  next
    case (Some cd)
    have "length (filter ?P (restartLoops w)) \<le> 1"
    proof (rule filter_key_le1 [where k = "case stopChan cd of Some ch \<Rightarrow> ch | None \<Rightarrow> 0"])
      show "distinct (map fst (restartLoops w))" using i(2) .
      show "\<forall>x \<in> set (restartLoops w). ?P x \<longrightarrow>
              fst x = (case stopChan cd of Some ch \<Rightarrow> ch | None \<Rightarrow> 0)"
      proof (intro ballI impI)
        fix x assume mem: "x \<in> set (restartLoops w)" and p: "?P x"
        obtain ch dev b where x: "x = (ch, dev, b)" by (cases x)
        with mem i(3) have "ch < length (w_chans w)" by blast
        with p x have "\<not> w_chans w ! ch" and "GetDeviceName (heap w dev) = d"
          by (simp_all add: IsChanClosed_def)
        with i(5) [of ch dev b] mem x Some have "stopChan cd = Some ch"
          unfolding loop_ok_def by simp
        with x show "fst x = (case stopChan cd of Some ch \<Rightarrow> ch | None \<Rightarrow> 0)"
          by simp
      qed
    qed
    with eq show ?thesis by simp
  qed
qed

text \<open>
  C6: start \<^verbatim>\<open>Run\<close> on a fresh controller, with no restart loop running, and let its
  main loop receive any events; the list of events is arbitrary, so the state reached
  is any point of a run, the state at a panic included. There the invariant of the
  running map holds; for every device name the running map holds at most one wrapper
  and at most one restart loop is alive; and \<^verbatim>\<open>startDevice\<close> on any name returns with
  the wrapper that was stored under that name stopped (its stop channel closed) and
  a fresh started wrapper in its place.
\<close>

theorem supervisor_one_wrapper_per_device:
  assumes "restartLoops w0 = []"
    and "Run (NewBridgeDeviceController w0 plugins maxDevs) w0 evs = (r, c, w)"
  shows "running_inv c w
     \<and> (\<forall>d. length (filter (\<lambda>(name, cd). controlledDevice_GetName cd w = d)
                 (startedPlugins c)) \<le> 1)
     \<and> (\<forall>d. length (filter (\<lambda>(ch, dev, b). GetDeviceName (heap w dev) = d) (live_loops w)) \<le> 1)
     \<and> (\<forall>name dev. \<exists>c' w' new.
           startDevice c w name dev = Inr (c', w')
           \<and> (\<forall>old. map_of (startedPlugins c) name = Some old
                 \<longrightarrow> IsChanClosed (w_chans w') (stopChan old))
           \<and> map_of (startedPlugins c') name = Some new
           \<and> devicePlugin new = dev \<and> started new
           \<and> stopChan new = Some (length (w_chans w))
           \<and> \<not> IsChanClosed (w_chans w') (stopChan new))"
proof -
  have inv: "running_inv c w"
    using Run_inv [OF assms] by simp
  have "\<exists>c' w' new.
           startDevice c w name dev = Inr (c', w')
           \<and> (\<forall>old. map_of (startedPlugins c) name = Some old
                 \<longrightarrow> IsChanClosed (w_chans w') (stopChan old))
           \<and> map_of (startedPlugins c') name = Some new
           \<and> devicePlugin new = dev \<and> started new
           \<and> stopChan new = Some (length (w_chans w))
           \<and> \<not> IsChanClosed (w_chans w') (stopChan new)" for name dev
    using startDevice_replaces [OF inv, of name dev] by blast
  with inv one_wrapper_per_name [OF inv] one_live_loop_per_name [OF inv]
  show ?thesis by blast
qed


lemma example_names:
  "GetDeviceName (example_heap 0) = ''br0''"
  "GetDeviceName (example_heap 1) = ''br1''"
  "GetDeviceName (example_heap (Suc 0)) = ''br1''"
  "GetDeviceName (example_heap 2) = ''br2''"
  by (simp_all add: example_heap_def GetDeviceName_def NewBridgeDevicePlugin_eq)

theorem supervisor_one_wrapper_per_device_witness:
  "running_inv
     (fst (snd (Run (NewBridgeDeviceController example_world [0, 1] 2) example_world
        [RecvNewPlugin (Some 2), RecvNewPlugin (Some 0)])))
     (snd (snd (Run (NewBridgeDeviceController example_world [0, 1] 2) example_world
        [RecvNewPlugin (Some 2), RecvNewPlugin (Some 0)])))
   \<and> map fst (startedPlugins (fst (snd (Run (NewBridgeDeviceController example_world [0, 1] 2)
        example_world [RecvNewPlugin (Some 2), RecvNewPlugin (Some 0)]))))
     = [''br1'', ''br2'', ''br0'']
   \<and> w_chans (snd (snd (Run (NewBridgeDeviceController example_world [0, 1] 2) example_world
        [RecvNewPlugin (Some 2), RecvNewPlugin (Some 0)])))
     = [True, False, False, False]
   \<and> map fst (restartLoops (snd (snd (Run (NewBridgeDeviceController example_world [0, 1] 2)
        example_world [RecvNewPlugin (Some 2), RecvNewPlugin (Some 0)]))))
     = [0, 1, 2, 3]"
proof -
  let ?run = "Run (NewBridgeDeviceController example_world [0, 1] 2) example_world
        [RecvNewPlugin (Some 2), RecvNewPlugin (Some 0)]"
  have h: "restartLoops example_world = []"
    by (simp add: example_world_def)
  have r: "?run = (fst ?run, fst (snd ?run), snd (snd ?run))"
    by simp
  have inv: "running_inv (fst (snd ?run)) (snd (snd ?run))"
    using supervisor_one_wrapper_per_device [OF h r] by blast
  have "map fst (startedPlugins (fst (snd ?run))) = [''br1'', ''br2'', ''br0'']
    \<and> w_chans (snd (snd ?run)) = [True, False, False, False]
    \<and> map fst (restartLoops (snd (snd ?run))) = [0, 1, 2, 3]"
    by (simp add: Run_def NewBridgeDeviceController_def startPermanentPlugins_def
        startNewPlugin_def startDevice_def stopDevice_def controlledDevice_Start_def
        controlledDevice_Stop_def make_chan_def close_chan_def Let_def example_world_def
        example_names)
  with inv show ?thesis by simp
qed


section \<open>Properties of the handlers\<close>

text \<open>
  C3, as the code has it: every \<^verbatim>\<open>Allocate\<close> call answers with exactly one container
  response, which carries no environment variable, mount, device node or annotation,
  and reports no error; the number of container requests plays no part. The answer
  has one response per request exactly when the request holds one container request.
\<close>

theorem Allocate_single_empty_response:
  "Allocate dpi req =
     (Some \<lparr>ContainerResponses =
        [\<lparr>Envs = [], Mounts = [], DeviceSpecs = [], Annotations = []\<rparr>]\<rparr>, None)
   \<and> (\<exists>res. fst (Allocate dpi req) = Some res
        \<and> length (ContainerResponses res) = 1
        \<and> (length (ContainerResponses res) = length (ContainerRequests req))
            = (length (ContainerRequests req) = 1))"
  by (auto simp: Allocate_def new_ContainerAllocateResponse_def Let_def)

text \<open>
  C3 as stated fails: a request with two container requests is answered with a single
  container response.
\<close>

theorem Allocate_two_requests_counterexample:
  "length (ContainerResponses (the (fst (Allocate
      \<lparr>devs = [], server = None, socketPath = ''/var/lib/kubelet/device-plugins/kubevirt-br0.sock'',
       stop = None, deviceName = ''br0'', resourceName = ''bridge.network.kubevirt.io/br0'',
       done_ch = None, initialized = True, deregistered = None\<rparr>
      \<lparr>ContainerRequests = [\<lparr>DevicesIDs = [''br00'']\<rparr>, \<lparr>DevicesIDs = [''br01'']\<rparr>]\<rparr>))))
   \<noteq> length (ContainerRequests
      \<lparr>ContainerRequests = [\<lparr>DevicesIDs = [''br00'']\<rparr>, \<lparr>DevicesIDs = [''br01'']\<rparr>]\<rparr>)"
  by (simp add: Allocate_def new_ContainerAllocateResponse_def Let_def)

text \<open>
  C10: \<^verbatim>\<open>Allocate\<close>, \<^verbatim>\<open>GetDevicePluginOptions\<close>, \<^verbatim>\<open>PreStartContainer\<close> and
  \<^verbatim>\<open>GetPreferredAllocation\<close> return a response (never nil) and a nil error on every
  plugin and every request.
\<close>

theorem handlers_never_fail:
  "(\<exists>res. Allocate dpi ar = (Some res, None))
   \<and> (\<exists>opts. GetDevicePluginOptions dpi = (Some opts, None))
   \<and> (\<exists>res. PreStartContainer dpi pr = (Some res, None))
   \<and> (\<exists>res. GetPreferredAllocation dpi gr = (Some res, None))"
  by (simp add: Allocate_def GetDevicePluginOptions_def PreStartContainer_def
      GetPreferredAllocation_def Let_def)

end
